theory Spec2Isabelle
  imports Complex_Main "HOL-Library.Multiset"
begin

section \<open>Amounts\<close>

text \<open>
  The local search of \<^verbatim>\<open>src/problems/vrptw/local_search/local_search.cpp\<close> works on
  indices (\<^verbatim>\<open>index_t\<close>), signed gains (\<^verbatim>\<open>gain_t\<close>), unsigned costs (\<^verbatim>\<open>cost_t\<close>)
  and amount vectors (\<^verbatim>\<open>amount_t\<close>).  The declarations of these types are not part of
  the sources at hand.  Indices and costs are naturals, gains are integers (no claim
  depends on wrap-around), and \<^verbatim>\<open>amount_t\<close> is

  Modelled from the spec: the amount vector, whose header is missing: \<^emph>\<open>a fixed-dimension
  D tuple of integers; addition is pointwise; comparison \<open>a \<le> b\<close> is pointwise; the zero
  vector is the additive identity\<close>.
\<close>

type_synonym index_t = nat
type_synonym gain_t = int
type_synonym cost_t = nat
type_synonym amount_t = "int list"

definition amount_zero :: "nat \<Rightarrow> amount_t" where
  "amount_zero d = replicate d 0"

definition amount_add :: "amount_t \<Rightarrow> amount_t \<Rightarrow> amount_t" where
  "amount_add a b = map2 (+) a b"

definition amount_sub :: "amount_t \<Rightarrow> amount_t \<Rightarrow> amount_t" where
  "amount_sub a b = map2 (-) a b"

definition amount_le :: "amount_t \<Rightarrow> amount_t \<Rightarrow> bool" where
  "amount_le a b = list_all2 (\<le>) a b"

section \<open>Amount caches after an insertion\<close>

text \<open>
  \<^verbatim>\<open>std::vector::insert(begin() + r, x)\<close>: the element is placed at rank \<open>r\<close> and the
  elements from \<open>r\<close> on are shifted by one.
\<close>

definition insert_at :: "nat \<Rightarrow> 'a \<Rightarrow> 'a list \<Rightarrow> 'a list" where
  "insert_at r x xs = take r xs @ x # drop r xs"

text \<open>
  Lines 118--126 of \<^verbatim>\<open>try_job_additions\<close>: the forward amounts of the route that
  received \<^verbatim>\<open>best_job\<close> at \<^verbatim>\<open>best_rank\<close>.
\<close>

definition fwd_after_add :: "nat \<Rightarrow> amount_t \<Rightarrow> nat \<Rightarrow> amount_t list \<Rightarrow> amount_t list" where
  "fwd_after_add d job_amount best_rank best_fwd_amounts =
     (let previous_cumul =
            (if best_rank = 0 then amount_zero d else best_fwd_amounts ! (best_rank - 1));
          inserted = insert_at best_rank (amount_add previous_cumul job_amount) best_fwd_amounts
      in take (best_rank + 1) inserted
           @ map (\<lambda>a. amount_add a job_amount) (drop (best_rank + 1) inserted))"

text \<open>
  Lines 128--135: a dummy entry is inserted at \<^verbatim>\<open>best_rank\<close> of the backward amounts,
  then the entries at indices \<open>0..best_rank\<close> are rewritten from the new forward amounts.
\<close>

definition bwd_after_add :: "nat \<Rightarrow> nat \<Rightarrow> amount_t list \<Rightarrow> amount_t list \<Rightarrow> amount_t list" where
  "bwd_after_add d best_rank new_fwd_amounts best_bwd_amounts =
     (let inserted = insert_at best_rank (amount_zero d) best_bwd_amounts;
          total_amount = last new_fwd_amounts
      in foldl (\<lambda>bwd i. bwd[i := amount_sub total_amount (new_fwd_amounts ! i)])
           inserted [0..<best_rank + 1])"

text \<open>
  From-scratch values, written after the words of the data model: the sum of the amounts
  of the jobs at ranks \<open>0..r\<close>, and the sum over a suffix of the route.
\<close>

definition amount_sum :: "nat \<Rightarrow> amount_t list \<Rightarrow> amount_t" where
  "amount_sum d as = foldl amount_add (amount_zero d) as"

definition route_amounts :: "(index_t \<Rightarrow> amount_t) \<Rightarrow> index_t list \<Rightarrow> amount_t list" where
  "route_amounts ja route = map ja route"

definition prefix_amount :: "nat \<Rightarrow> (index_t \<Rightarrow> amount_t) \<Rightarrow> index_t list \<Rightarrow> nat \<Rightarrow> amount_t" where
  "prefix_amount d ja route r = amount_sum d (take (r + 1) (route_amounts ja route))"

definition suffix_amount :: "nat \<Rightarrow> (index_t \<Rightarrow> amount_t) \<Rightarrow> index_t list \<Rightarrow> nat \<Rightarrow> amount_t" where
  "suffix_amount d ja route r = amount_sum d (drop r (route_amounts ja route))"

text \<open>
  The caches of a route recomputed from scratch.  The forward amount at rank \<open>r\<close> is the
  sum over the ranks \<open>0..r\<close>.  For the backward amounts two readings are written down:
  \<open>recomputed_bwd\<close> takes the last forward amount minus the forward amount of the rank,
  which is the formula of lines 131--134, and \<open>suffix_bwd\<close> is the sum over the ranks
  strictly behind \<open>r\<close>.  The sum over the ranks \<open>r..end\<close> of the data model is
  \<open>suffix_amount\<close> at \<open>r\<close> itself.
\<close>

definition recomputed_fwd :: "nat \<Rightarrow> (index_t \<Rightarrow> amount_t) \<Rightarrow> index_t list \<Rightarrow> amount_t list" where
  "recomputed_fwd d ja route = map (prefix_amount d ja route) [0..<length route]"

definition recomputed_bwd :: "amount_t list \<Rightarrow> amount_t list" where
  "recomputed_bwd fwd = map (\<lambda>a. amount_sub (last fwd) a) fwd"

definition suffix_bwd :: "nat \<Rightarrow> (index_t \<Rightarrow> amount_t) \<Rightarrow> index_t list \<Rightarrow> amount_t list" where
  "suffix_bwd d ja route =
     map (\<lambda>r. suffix_amount d ja route (r + 1)) [0..<length route]"

text \<open>
  Modelled from the spec: \<^verbatim>\<open>solution_state::total_amount\<close>, whose body is missing:
  \<^emph>\<open>\<open>total_amount(v) := fwd_amounts[v].back()\<close>\<close>.  A route without jobs has no last
  forward amount; the zero amount is taken there.
\<close>

definition total_amount :: "nat \<Rightarrow> amount_t list \<Rightarrow> amount_t" where
  "total_amount d fwd = (if fwd = [] then amount_zero d else last fwd)"

text \<open>Small inputs on which the theorems below are evaluated.\<close>

definition unit_amount :: "index_t \<Rightarrow> amount_t" where
  "unit_amount j = [1]"

definition rank_amount :: "index_t \<Rightarrow> amount_t" where
  "rank_amount j = [int j + 1]"

section \<open>The input and the solution state\<close>

text \<open>
  \<^verbatim>\<open>local_search.cpp\<close> reads the problem through \<^verbatim>\<open>_input\<close> and through
  collaborators whose bodies are not among the sources: the skill predicate, the
  time-window test of a route, the addition cost, the cost of a route for a vehicle, the
  constructive heuristic for a single route and the removal gains.  They are the fields
  of a record that every function below receives, so nothing is assumed about them.
  The time-window test and the heuristic belong to \<^verbatim>\<open>tw_route\<close>, which knows its
  vehicle and its job sequence; both are arguments here.
\<close>

record input =
  amount_size :: nat
  job_amount :: "index_t \<Rightarrow> amount_t"
  capacity :: "index_t \<Rightarrow> amount_t"
  vehicle_ok_with_job :: "index_t \<Rightarrow> index_t \<Rightarrow> bool"
  is_valid_addition_for_tw :: "index_t \<Rightarrow> index_t list \<Rightarrow> index_t \<Rightarrow> nat \<Rightarrow> bool"
  addition_cost :: "index_t \<Rightarrow> index_t \<Rightarrow> index_t list \<Rightarrow> nat \<Rightarrow> gain_t"
  route_cost_for_vehicle :: "index_t \<Rightarrow> index_t list \<Rightarrow> cost_t"
  single_route_heuristic :: "index_t \<Rightarrow> index_t list \<Rightarrow> bool \<Rightarrow> index_t list"
  node_gain :: "index_t \<Rightarrow> index_t list \<Rightarrow> nat \<Rightarrow> gain_t"
  edge_gain :: "index_t \<Rightarrow> index_t list \<Rightarrow> nat \<Rightarrow> gain_t"
  amount_lower_bound :: amount_t
  double_amount_lower_bound :: amount_t

text \<open>
  The solution \<^verbatim>\<open>_tw_sol\<close> (one job sequence per vehicle) together with the caches of
  \<^verbatim>\<open>_sol_state\<close> that \<^verbatim>\<open>local_search.cpp\<close> reads or writes.  The unassigned jobs are
  a container that is iterated and erased from; it is a list here, in the order of
  iteration.
\<close>

record solution =
  routes :: "index_t list list"
  unassigned :: "index_t list"
  route_costs :: "cost_t list"
  fwd_amounts :: "amount_t list list"
  bwd_amounts :: "amount_t list list"
  node_gains :: "gain_t list list"
  edge_gains :: "gain_t list list"

section \<open>Job reinsertion: \<^verbatim>\<open>try_job_additions\<close>\<close>

text \<open>
  \<^verbatim>\<open>std::numeric_limits<gain_t>::max()\<close> for the 64-bit signed \<^verbatim>\<open>gain_t\<close>, and
  \<^verbatim>\<open>std::numeric_limits<double>::max()\<close>.  The evaluation of line 100 is a \<^verbatim>\<open>double\<close>;
  it is computed in exact real arithmetic here.
\<close>

definition gain_max :: gain_t where
  "gain_max = 2 ^ 63 - 1"

definition double_max :: real where
  "double_max = 2 ^ 1024 - 2 ^ 971"

text \<open>Lines 58--68: the scan of the ranks of one route for one job.\<close>

definition rank_step :: "input \<Rightarrow> index_t \<Rightarrow> index_t list \<Rightarrow> index_t \<Rightarrow> gain_t \<times> nat \<Rightarrow> nat \<Rightarrow> gain_t \<times> nat" where
  "rank_step inp v route j acc r =
     (if is_valid_addition_for_tw inp v route j r
      then (let current_cost = addition_cost inp j v route r
            in if current_cost < fst acc then (current_cost, r) else acc)
      else acc)"

text \<open>Lines 52--69: \<^verbatim>\<open>best_costs[i]\<close> and \<^verbatim>\<open>best_ranks[i]\<close> for the route \<open>v\<close>.\<close>

definition best_addition :: "input \<Rightarrow> solution \<Rightarrow> index_t \<Rightarrow> index_t \<Rightarrow> gain_t \<times> nat" where
  "best_addition inp sol j v =
     (let current_amount = job_amount inp j;
          v_amount = total_amount (amount_size inp) (fwd_amounts sol ! v)
      in if vehicle_ok_with_job inp v j \<and>
            amount_le (amount_add v_amount current_amount) (capacity inp v)
         then foldl (rank_step inp v (routes sol ! v) j) (gain_max, 0)
                [0..<length (routes sol ! v) + 1]
         else (gain_max, 0))"

text \<open>Lines 72--84: the smallest and second smallest entry and the index of the smallest.\<close>

definition smallest_step :: "gain_t list \<Rightarrow> gain_t \<times> gain_t \<times> nat \<Rightarrow> nat \<Rightarrow> gain_t \<times> gain_t \<times> nat" where
  "smallest_step best_costs acc i =
     (case acc of (smallest, second_smallest, smallest_idx) \<Rightarrow>
        if best_costs ! i < smallest then (best_costs ! i, smallest, i)
        else if best_costs ! i < second_smallest then (smallest, best_costs ! i, smallest_idx)
        else (smallest, second_smallest, smallest_idx))"

definition two_smallest :: "gain_t list \<Rightarrow> gain_t \<times> gain_t \<times> nat" where
  "two_smallest best_costs =
     foldl (smallest_step best_costs) (gain_max, gain_max, nat gain_max) [0..<length best_costs]"

text \<open>The best insertion found so far in a pass: lines 40--43.\<close>

record addition =
  best_cost :: real
  best_job :: index_t
  best_route :: index_t
  best_rank :: nat

definition no_addition :: addition where
  "no_addition = \<lparr>best_cost = double_max, best_job = 0, best_route = 0, best_rank = 0\<rparr>"

text \<open>Lines 88--109: the evaluation of the route at index \<open>i\<close> of \<^verbatim>\<open>routes\<close>.\<close>

definition eval_step :: "real \<Rightarrow> index_t list \<Rightarrow> index_t \<Rightarrow> gain_t list \<Rightarrow> nat list \<Rightarrow> gain_t \<times> gain_t \<times> nat \<Rightarrow> addition \<Rightarrow> nat \<Rightarrow> addition" where
  "eval_step regret_coeff rts j best_costs best_ranks sm best i =
     (case sm of (smallest, second_smallest, smallest_idx) \<Rightarrow>
        if best_costs ! i = gain_max then best
        else (let regret_cost = (if i = smallest_idx then second_smallest else smallest);
                  eval = real_of_int (best_costs ! i) - regret_coeff * real_of_int regret_cost
              in if eval < best_cost best
                 then \<lparr>best_cost = eval, best_job = j, best_route = rts ! i,
                        best_rank = best_ranks ! i\<rparr>
                 else best))"

text \<open>Lines 45--110: the body of the loop over the unassigned jobs, and the loop.\<close>

definition job_step :: "input \<Rightarrow> solution \<Rightarrow> index_t list \<Rightarrow> real \<Rightarrow> addition \<Rightarrow> index_t \<Rightarrow> addition" where
  "job_step inp sol rts regret_coeff best j =
     (let best_costs = map (\<lambda>v. fst (best_addition inp sol j v)) rts;
          best_ranks = map (\<lambda>v. snd (best_addition inp sol j v)) rts
      in foldl (eval_step regret_coeff rts j best_costs best_ranks (two_smallest best_costs))
           best [0..<length rts])"

definition find_best_addition :: "input \<Rightarrow> solution \<Rightarrow> index_t list \<Rightarrow> real \<Rightarrow> addition" where
  "find_best_addition inp sol rts regret_coeff =
     foldl (job_step inp sol rts regret_coeff) no_addition (unassigned sol)"

text \<open>
  Lines 115--140: the insertion.

  Modelled from the spec: \<^verbatim>\<open>tw_route::add\<close> and \<^verbatim>\<open>update_route_cost\<close>, whose bodies are
  missing: \<^emph>\<open>\<open>add(j, r)\<close> mutates the sequence\<close> (the job is inserted at the rank), and
  \<^emph>\<open>\<open>update_route_cost(route, v)\<close>: recompute and store\<close>.
\<close>

definition update_route_cost :: "input \<Rightarrow> index_t \<Rightarrow> solution \<Rightarrow> solution" where
  "update_route_cost inp v sol =
     sol\<lparr>route_costs := (route_costs sol)[v := route_cost_for_vehicle inp v (routes sol ! v)]\<rparr>"

definition add_job :: "input \<Rightarrow> addition \<Rightarrow> solution \<Rightarrow> solution" where
  "add_job inp best sol =
     (let v = best_route best;
          sol1 = sol\<lparr>routes := (routes sol)[v := insert_at (best_rank best) (best_job best) (routes sol ! v)]\<rparr>;
          new_fwd = fwd_after_add (amount_size inp) (job_amount inp (best_job best)) (best_rank best)
                      (fwd_amounts sol ! v);
          sol2 = sol1\<lparr>fwd_amounts := (fwd_amounts sol)[v := new_fwd]\<rparr>;
          sol3 = sol2\<lparr>bwd_amounts := (bwd_amounts sol)[v :=
                         bwd_after_add (amount_size inp) (best_rank best) new_fwd (bwd_amounts sol ! v)]\<rparr>;
          sol4 = update_route_cost inp v sol3
      in sol4\<lparr>unassigned := removeAll (best_job best) (unassigned sol)\<rparr>)"

text \<open>Lines 39--142: passes are repeated as long as a job was added.\<close>

function try_job_additions :: "input \<Rightarrow> index_t list \<Rightarrow> real \<Rightarrow> solution \<Rightarrow> solution" where
  "try_job_additions inp rts regret_coeff sol =
     (let best = find_best_addition inp sol rts regret_coeff;
          job_added = (best_cost best < double_max)
      in if job_added then try_job_additions inp rts regret_coeff (add_job inp best sol)
         else sol)"
  by pat_completeness auto

text \<open>
  Every pass that adds a job erases it from the unassigned jobs, and the job it adds is
  one of them; so the passes come to an end.
\<close>

lemma eval_step_cases:
  "eval_step c rts j bcs brs sm best i = best \<or>
   (\<exists>e. eval_step c rts j bcs brs sm best i
        = \<lparr>best_cost = e, best_job = j, best_route = rts ! i, best_rank = brs ! i\<rparr>
      \<and> e < best_cost best \<and> bcs ! i \<noteq> gain_max)"
  by (cases sm) (auto simp: eval_step_def Let_def)

lemma job_step_job:
  assumes "best_cost best < double_max \<longrightarrow> best_job best \<in> S" and "j \<in> S"
  shows "best_cost (job_step inp sol rts c best j) < double_max
           \<longrightarrow> best_job (job_step inp sol rts c best j) \<in> S"
proof -
  have "\<And>is b. (best_cost b < double_max \<longrightarrow> best_job b \<in> S) \<Longrightarrow>
      (let b' = foldl (eval_step c rts j bcs brs sm) b is
       in best_cost b' < double_max \<longrightarrow> best_job b' \<in> S)" for bcs brs sm
  proof -
    fix "is" b
    show "(best_cost b < double_max \<longrightarrow> best_job b \<in> S) \<Longrightarrow>
      (let b' = foldl (eval_step c rts j bcs brs sm) b is
       in best_cost b' < double_max \<longrightarrow> best_job b' \<in> S)"
    proof (induction "is" arbitrary: b)
      case Nil then show ?case by simp
    next
      case (Cons i "is")
      have "best_cost (eval_step c rts j bcs brs sm b i) < double_max
              \<longrightarrow> best_job (eval_step c rts j bcs brs sm b i) \<in> S"
        using eval_step_cases [of c rts j bcs brs sm b i] Cons.prems assms(2) by auto
      from Cons.IH [OF this] show ?case by simp
    qed
  qed
  from this [OF assms(1)] show ?thesis by (simp add: job_step_def Let_def)
qed

lemma find_best_addition_job:
  "best_cost (find_best_addition inp sol rts c) < double_max
     \<Longrightarrow> best_job (find_best_addition inp sol rts c) \<in> set (unassigned sol)"
proof -
  have "\<And>b. (best_cost b < double_max \<longrightarrow> best_job b \<in> S) \<Longrightarrow> set js \<subseteq> S \<Longrightarrow>
      best_cost (foldl (job_step inp sol rts c) b js) < double_max
        \<longrightarrow> best_job (foldl (job_step inp sol rts c) b js) \<in> S" for js S
  proof (induction js)
    case Nil then show ?case by simp
  next
    case (Cons j js)
    have "best_cost (job_step inp sol rts c b j) < double_max
            \<longrightarrow> best_job (job_step inp sol rts c b j) \<in> S"
      using job_step_job [of b S j] Cons.prems by simp
    from Cons.IH [OF this] Cons.prems show ?case by simp
  qed
  from this [of no_addition "set (unassigned sol)" "unassigned sol"]
  show "best_cost (find_best_addition inp sol rts c) < double_max
     \<Longrightarrow> best_job (find_best_addition inp sol rts c) \<in> set (unassigned sol)"
    by (simp add: find_best_addition_def no_addition_def)
qed

lemma unassigned_add_job [simp]:
  "unassigned (add_job inp best sol) = removeAll (best_job best) (unassigned sol)"
  by (simp add: add_job_def Let_def update_route_cost_def)

lemma length_removeAll_less: "x \<in> set xs \<Longrightarrow> length (removeAll x xs) < length xs"
  by (induction xs) (auto simp: less_Suc_eq_le)

termination try_job_additions
  by (relation "measure (\<lambda>(inp, rts, c, sol). length (unassigned sol))")
    (auto dest!: find_best_addition_job intro: length_removeAll_less)

declare try_job_additions.simps [simp del]

text \<open>
  Names for what a pass computes: the vector \<^verbatim>\<open>best_costs\<close> of a job, the evaluation of
  line 100 for the route at index \<open>i\<close>, and the insertion recorded when that evaluation
  is the best so far.
\<close>

definition code_score :: "real \<Rightarrow> gain_t list \<Rightarrow> nat \<Rightarrow> real" where
  "code_score regret_coeff best_costs i =
     (case two_smallest best_costs of (smallest, second_smallest, smallest_idx) \<Rightarrow>
        real_of_int (best_costs ! i)
          - regret_coeff * real_of_int (if i = smallest_idx then second_smallest else smallest))"

definition pass_costs :: "input \<Rightarrow> solution \<Rightarrow> index_t list \<Rightarrow> index_t \<Rightarrow> gain_t list" where
  "pass_costs inp sl rts j = map (\<lambda>v. fst (best_addition inp sl j v)) rts"

definition pass_choice :: "input \<Rightarrow> solution \<Rightarrow> index_t list \<Rightarrow> real \<Rightarrow> index_t \<Rightarrow> nat \<Rightarrow> addition" where
  "pass_choice inp sl rts regret_coeff j i =
     \<lparr>best_cost = code_score regret_coeff (pass_costs inp sl rts j) i,
      best_job = j, best_route = rts ! i,
      best_rank = snd (best_addition inp sl j (rts ! i))\<rparr>"

text \<open>
  The pass as the design describes it, to be compared with the pass of the code.  An
  insertion of job \<open>j\<close> at rank \<open>r\<close> of route \<open>v\<close> is vehicle-compatible when the skill
  predicate holds, the total amount of the route plus the amount of the job is within the
  capacity, and the time windows admit the rank.  The best cost of a route is the
  cheapest addition cost over these ranks, or \<open>+\<infinity>\<close>, for which the largest gain
  stands.  The smallest and second smallest are the two lowest best costs, the first
  occurrence of the smallest is the argmin, and the score of a route is its best cost
  minus the regret coefficient times the second smallest for the argmin and the
  smallest for the others.
\<close>

definition vehicle_compatible :: "input \<Rightarrow> solution \<Rightarrow> index_t \<Rightarrow> index_t \<Rightarrow> nat \<Rightarrow> bool" where
  "vehicle_compatible inp sl j v r \<longleftrightarrow>
     vehicle_ok_with_job inp v j \<and>
     amount_le (amount_add (total_amount (amount_size inp) (fwd_amounts sl ! v)) (job_amount inp j))
       (capacity inp v) \<and>
     r \<le> length (routes sl ! v) \<and>
     is_valid_addition_for_tw inp v (routes sl ! v) j r"

definition spec_best_cost :: "input \<Rightarrow> solution \<Rightarrow> index_t \<Rightarrow> index_t \<Rightarrow> gain_t" where
  "spec_best_cost inp sl j v =
     Min (set (gain_max # map (addition_cost inp j v (routes sl ! v))
                 (filter (vehicle_compatible inp sl j v) [0..<length (routes sl ! v) + 1])))"

definition spec_smallest :: "gain_t list \<Rightarrow> gain_t" where
  "spec_smallest cs = Min (set (gain_max # cs))"

definition spec_second_smallest :: "gain_t list \<Rightarrow> gain_t" where
  "spec_second_smallest cs = Min (set (gain_max # remove1 (spec_smallest cs) cs))"

definition spec_argmin :: "gain_t list \<Rightarrow> nat" where
  "spec_argmin cs = length (takeWhile (\<lambda>x. x \<noteq> spec_smallest cs) cs)"

definition spec_score :: "real \<Rightarrow> gain_t list \<Rightarrow> nat \<Rightarrow> real" where
  "spec_score c cs i =
     real_of_int (cs ! i)
       - c * real_of_int (if i = spec_argmin cs then spec_second_smallest cs else spec_smallest cs)"

definition spec_costs :: "input \<Rightarrow> solution \<Rightarrow> index_t list \<Rightarrow> index_t \<Rightarrow> gain_t list" where
  "spec_costs inp sl rts j = map (spec_best_cost inp sl j) rts"


section \<open>Straightening a route: \<^verbatim>\<open>straighten_route\<close>\<close>

text \<open>
  Lines 454--464: the forward rebuild, replaced by the reverse one when that serves more
  jobs, or as many at a lower cost.
\<close>

definition chosen_variant :: "input \<Rightarrow> index_t \<Rightarrow> index_t list \<Rightarrow> index_t list" where
  "chosen_variant inp route_rank route =
     (let new_tw_r = single_route_heuristic inp route_rank route True;
          other_tw_r = single_route_heuristic inp route_rank route False
      in if length other_tw_r > length new_tw_r \<or>
            (length other_tw_r = length new_tw_r \<and>
             route_cost_for_vehicle inp route_rank other_tw_r
               < route_cost_for_vehicle inp route_rank new_tw_r)
         then other_tw_r else new_tw_r)"

text \<open>Lines 450--478.\<close>

definition straighten_route :: "input \<Rightarrow> index_t \<Rightarrow> solution \<Rightarrow> solution" where
  "straighten_route inp route_rank sol =
     (if length (routes sol ! route_rank) > 0
      then (let before_cost = route_costs sol ! route_rank;
                new_tw_r = chosen_variant inp route_rank (routes sol ! route_rank)
            in if length new_tw_r = length (routes sol ! route_rank)
               then (let after_cost = route_cost_for_vehicle inp route_rank new_tw_r
                     in if after_cost < before_cost
                        then sol\<lparr>routes := (routes sol)[route_rank := new_tw_r],
                                 route_costs := (route_costs sol)[route_rank := after_cost]\<rparr>
                        else sol)
               else sol)
      else sol)"

section \<open>The run_round loop: \<^verbatim>\<open>run\<close>\<close>

text \<open>
  A move is built from the input, the solution state, the solution and the two vehicles
  and ranks.  \<^verbatim>\<open>local_search.cpp\<close> uses its gain, its validity, its application to the
  solution and its addition candidates; the bodies of the six operator classes are not
  among the sources, so the constructor is an argument of everything below.
\<close>

record ls_operator =
  gain :: gain_t
  is_valid :: bool
  apply_to :: "index_t list list \<Rightarrow> index_t list list"
  addition_candidates :: "index_t list"

datatype op_kind = Exchange | CrossExchange | TwoOpt | ReverseTwoOpt | Relocate | OrOpt

type_synonym op_maker = "op_kind \<Rightarrow> solution \<Rightarrow> index_t \<Rightarrow> nat \<Rightarrow> index_t \<Rightarrow> nat \<Rightarrow> ls_operator"

text \<open>A move is addressed by source vehicle, source rank, target vehicle, target rank.\<close>

type_synonym move = "index_t \<times> nat \<times> index_t \<times> nat"

text \<open>The variables of \<^verbatim>\<open>run\<close> next to the solution: lines 156--172.\<close>

record search =
  sol :: solution
  s_t_pairs :: "(index_t \<times> index_t) list"
  best_gains :: "gain_t list list"
  best_ops :: "ls_operator option list list"

definition set2 :: "'a list list \<Rightarrow> nat \<Rightarrow> nat \<Rightarrow> 'a \<Rightarrow> 'a list list" where
  "set2 m s t x = m[s := (m ! s)[t := x]]"

definition initial_search :: "nat \<Rightarrow> solution \<Rightarrow> search" where
  "initial_search V sl =
     \<lparr>sol = sl,
      s_t_pairs = concat (map (\<lambda>s_v. concat (map (\<lambda>t_v. if s_v = t_v then [] else [(s_v, t_v)])
                     [0..<V])) [0..<V]),
      best_gains = replicate V (replicate V 0),
      best_ops = replicate V (replicate V None)\<rparr>"

text \<open>Lines 196--200 (and their five copies): a valid move with a larger gain is kept.\<close>

definition keep_if_better :: "ls_operator \<Rightarrow> index_t \<Rightarrow> index_t \<Rightarrow> search \<Rightarrow> search" where
  "keep_if_better r s t st =
     (if is_valid r \<and> gain r > best_gains st ! s ! t
      then st\<lparr>best_gains := set2 (best_gains st) s t (gain r),
              best_ops := set2 (best_ops st) s t (Some r)\<rparr>
      else st)"

definition evaluate :: "op_maker \<Rightarrow> op_kind \<Rightarrow> search \<Rightarrow> move \<Rightarrow> search" where
  "evaluate mk kind st m =
     (case m of (s, s_rank, t, t_rank) \<Rightarrow>
        keep_if_better (mk kind (sol st) s s_rank t t_rank) s t st)"

text \<open>
  The moves built for one pair of the list, in the order of the loops.  Lines 178--203
  (exchange) and 206--231 (CROSS-exchange).
\<close>

definition exchange_moves :: "solution \<Rightarrow> index_t \<times> index_t \<Rightarrow> move list" where
  "exchange_moves sl s_t =
     (let s = fst s_t; t = snd s_t
      in if t \<le> s \<or> length (routes sl ! s) = 0 \<or> length (routes sl ! t) = 0 then []
         else concat (map (\<lambda>s_rank. map (\<lambda>t_rank. (s, s_rank, t, t_rank))
                             [0..<length (routes sl ! t)])
                [0..<length (routes sl ! s)]))"

definition cross_exchange_moves :: "solution \<Rightarrow> index_t \<times> index_t \<Rightarrow> move list" where
  "cross_exchange_moves sl s_t =
     (let s = fst s_t; t = snd s_t
      in if t \<le> s \<or> length (routes sl ! s) < 2 \<or> length (routes sl ! t) < 2 then []
         else concat (map (\<lambda>s_rank. map (\<lambda>t_rank. (s, s_rank, t, t_rank))
                             [0..<length (routes sl ! t) - 1])
                [0..<length (routes sl ! s) - 1]))"

text \<open>
  The target ranks of the two 2-opt* scans: the ranks are visited in the given order and
  the scan is left at the first rank that fails the capacity test (lines 245--247 and
  272--274).
\<close>

fun ranks_until_break :: "(nat \<Rightarrow> bool) \<Rightarrow> nat list \<Rightarrow> nat list" where
  "ranks_until_break fits [] = []"
| "ranks_until_break fits (t_rank # rest) =
     (if \<not> fits t_rank then [] else t_rank # ranks_until_break fits rest)"

text \<open>Lines 234--262: 2-opt*, the target ranks from the last one down to \<open>0\<close>.\<close>

definition two_opt_moves :: "input \<Rightarrow> solution \<Rightarrow> index_t \<times> index_t \<Rightarrow> move list" where
  "two_opt_moves inp sl s_t =
     (let s = fst s_t; t = snd s_t
      in if t \<le> s then []
         else concat (map (\<lambda>s_rank.
                 let s_free_amount = amount_sub (capacity inp s) (fwd_amounts sl ! s ! s_rank)
                 in map (\<lambda>t_rank. (s, s_rank, t, t_rank))
                      (ranks_until_break
                         (\<lambda>t_rank. amount_le (bwd_amounts sl ! t ! t_rank) s_free_amount)
                         (rev [0..<length (routes sl ! t)])))
                [0..<length (routes sl ! s)]))"

text \<open>Lines 265--289: reverse 2-opt*, the target ranks from \<open>0\<close> upwards.\<close>

definition reverse_two_opt_moves :: "input \<Rightarrow> solution \<Rightarrow> index_t \<times> index_t \<Rightarrow> move list" where
  "reverse_two_opt_moves inp sl s_t =
     (let s = fst s_t; t = snd s_t
      in concat (map (\<lambda>s_rank.
                 let s_free_amount = amount_sub (capacity inp s) (fwd_amounts sl ! s ! s_rank)
                 in map (\<lambda>t_rank. (s, s_rank, t, t_rank))
                      (ranks_until_break
                         (\<lambda>t_rank. amount_le (fwd_amounts sl ! t ! t_rank) s_free_amount)
                         [0..<length (routes sl ! t)]))
                [0..<length (routes sl ! s)]))"

definition exchange_phase :: "op_maker \<Rightarrow> search \<Rightarrow> search" where
  "exchange_phase mk st =
     foldl (evaluate mk Exchange) st (concat (map (exchange_moves (sol st)) (s_t_pairs st)))"

definition cross_exchange_phase :: "op_maker \<Rightarrow> search \<Rightarrow> search" where
  "cross_exchange_phase mk st =
     foldl (evaluate mk CrossExchange) st
       (concat (map (cross_exchange_moves (sol st)) (s_t_pairs st)))"

definition two_opt_phase :: "input \<Rightarrow> op_maker \<Rightarrow> search \<Rightarrow> search" where
  "two_opt_phase inp mk st =
     foldl (evaluate mk TwoOpt) st (concat (map (two_opt_moves inp (sol st)) (s_t_pairs st)))"

definition reverse_two_opt_phase :: "input \<Rightarrow> op_maker \<Rightarrow> search \<Rightarrow> search" where
  "reverse_two_opt_phase inp mk st =
     foldl (evaluate mk ReverseTwoOpt) st
       (concat (map (reverse_two_opt_moves inp (sol st)) (s_t_pairs st)))"

text \<open>
  Lines 292--324: relocate.  A source rank is skipped when its node gain does not exceed
  the best gain known for the pair at that moment, so the scan depends on the gains
  written so far.
\<close>

definition relocate_rank :: "op_maker \<Rightarrow> index_t \<Rightarrow> index_t \<Rightarrow> search \<Rightarrow> nat \<Rightarrow> search" where
  "relocate_rank mk s t st s_rank =
     (if node_gains (sol st) ! s ! s_rank \<le> best_gains st ! s ! t then st
      else foldl (evaluate mk Relocate) st
             (map (\<lambda>t_rank. (s, s_rank, t, t_rank)) [0..<length (routes (sol st) ! t) + 1]))"

definition relocate_pair :: "input \<Rightarrow> op_maker \<Rightarrow> search \<Rightarrow> index_t \<times> index_t \<Rightarrow> search" where
  "relocate_pair inp mk st s_t =
     (let s = fst s_t; t = snd s_t
      in if length (routes (sol st) ! s) = 0 \<or>
            \<not> amount_le (amount_add (total_amount (amount_size inp) (fwd_amounts (sol st) ! t))
                           (amount_lower_bound inp)) (capacity inp t)
         then st
         else foldl (relocate_rank mk s t) st [0..<length (routes (sol st) ! s)])"

definition relocate_phase :: "input \<Rightarrow> op_maker \<Rightarrow> search \<Rightarrow> search" where
  "relocate_phase inp mk st = foldl (relocate_pair inp mk) st (s_t_pairs st)"

text \<open>Lines 327--358: or-opt, with the edge gains.\<close>

definition or_opt_rank :: "op_maker \<Rightarrow> index_t \<Rightarrow> index_t \<Rightarrow> search \<Rightarrow> nat \<Rightarrow> search" where
  "or_opt_rank mk s t st s_rank =
     (if edge_gains (sol st) ! s ! s_rank \<le> best_gains st ! s ! t then st
      else foldl (evaluate mk OrOpt) st
             (map (\<lambda>t_rank. (s, s_rank, t, t_rank)) [0..<length (routes (sol st) ! t) + 1]))"

definition or_opt_pair :: "input \<Rightarrow> op_maker \<Rightarrow> search \<Rightarrow> index_t \<times> index_t \<Rightarrow> search" where
  "or_opt_pair inp mk st s_t =
     (let s = fst s_t; t = snd s_t
      in if length (routes (sol st) ! s) < 2 \<or>
            \<not> amount_le (amount_add (total_amount (amount_size inp) (fwd_amounts (sol st) ! t))
                           (double_amount_lower_bound inp)) (capacity inp t)
         then st
         else foldl (or_opt_rank mk s t) st [0..<length (routes (sol st) ! s) - 1])"

definition or_opt_phase :: "input \<Rightarrow> op_maker \<Rightarrow> search \<Rightarrow> search" where
  "or_opt_phase inp mk st = foldl (or_opt_pair inp mk) st (s_t_pairs st)"

definition evaluate_all :: "input \<Rightarrow> op_maker \<Rightarrow> search \<Rightarrow> search" where
  "evaluate_all inp mk st =
     or_opt_phase inp mk (relocate_phase inp mk (reverse_two_opt_phase inp mk
       (two_opt_phase inp mk (cross_exchange_phase mk (exchange_phase mk st)))))"

text \<open>Lines 361--376: the best overall gain and the pair that has it.\<close>

definition select_step :: "gain_t list list \<Rightarrow> gain_t \<times> index_t \<times> index_t \<Rightarrow> index_t \<times> index_t \<Rightarrow> gain_t \<times> index_t \<times> index_t" where
  "select_step gains acc s_t =
     (case acc of (best_gain, best_source, best_target) \<Rightarrow>
        if fst s_t = snd s_t then acc
        else if gains ! fst s_t ! snd s_t > best_gain
             then (gains ! fst s_t ! snd s_t, fst s_t, snd s_t)
             else acc)"

definition select_best :: "nat \<Rightarrow> gain_t list list \<Rightarrow> gain_t \<times> index_t \<times> index_t" where
  "select_best V gains =
     foldl (select_step gains) (0, 0, 0)
       (concat (map (\<lambda>s_v. map (\<lambda>t_v. (s_v, t_v)) [0..<V]) [0..<V]))"

text \<open>
  The caches refreshed after a move.

  Modelled from the spec: \<^verbatim>\<open>update_amounts\<close>, \<^verbatim>\<open>set_node_gains\<close> and \<^verbatim>\<open>set_edge_gains\<close>,
  whose bodies are missing: \<^emph>\<open>recompute \<open>fwd_amounts[v]\<close>, then derive \<open>bwd_amounts[v]\<close>\<close>
  (derived as lines 131--134 do it), and \<^emph>\<open>recompute removal savings\<close>, per rank for the
  nodes and per pair of consecutive ranks for the edges.  \<^verbatim>\<open>update_costs\<close> and
  \<^verbatim>\<open>update_skills\<close> refresh caches that only the operators read; they are not part of
  the state here.
\<close>

definition update_amounts :: "input \<Rightarrow> index_t \<Rightarrow> solution \<Rightarrow> solution" where
  "update_amounts inp v sl =
     (let fwd = recomputed_fwd (amount_size inp) (job_amount inp) (routes sl ! v)
      in sl\<lparr>fwd_amounts := (fwd_amounts sl)[v := fwd],
            bwd_amounts := (bwd_amounts sl)[v := recomputed_bwd fwd]\<rparr>)"

definition set_node_gains :: "input \<Rightarrow> index_t \<Rightarrow> solution \<Rightarrow> solution" where
  "set_node_gains inp v sl =
     sl\<lparr>node_gains := (node_gains sl)[v :=
           map (node_gain inp v (routes sl ! v)) [0..<length (routes sl ! v)]]\<rparr>"

definition set_edge_gains :: "input \<Rightarrow> index_t \<Rightarrow> solution \<Rightarrow> solution" where
  "set_edge_gains inp v sl =
     sl\<lparr>edge_gains := (edge_gains sl)[v :=
           map (edge_gain inp v (routes sl ! v)) [0..<length (routes sl ! v) - 1]]\<rparr>"

text \<open>Lines 421--443: the pairs to test in the next run_round, and the gains set to zero.\<close>

definition reset_gains_step :: "index_t \<Rightarrow> index_t \<Rightarrow> gain_t list list \<Rightarrow> index_t \<Rightarrow> gain_t list list" where
  "reset_gains_step best_source best_target gains v =
     (if v = best_source \<or> v = best_target then gains
      else set2 (set2 (set2 (set2 gains v best_source 0) best_source v 0) v best_target 0)
             best_target v 0)"

definition reset_pairs :: "nat \<Rightarrow> index_t \<Rightarrow> index_t \<Rightarrow> search \<Rightarrow> search" where
  "reset_pairs V best_source best_target st =
     st\<lparr>s_t_pairs :=
          [(best_source, best_target), (best_target, best_source)]
          @ concat (map (\<lambda>v. if v = best_source \<or> v = best_target then []
                             else [(best_source, v), (v, best_source),
                                   (best_target, v), (v, best_target)]) [0..<V]),
        best_gains :=
          foldl (reset_gains_step best_source best_target)
            ((best_gains st)[best_source := replicate V 0, best_target := replicate V 0])
            [0..<V]\<rparr>"

text \<open>
  Lines 379--443.  The two assertions are results of their own: a failed assertion ends
  the run.
\<close>

datatype failure = NullOperator | GainMismatch

definition refresh_after_move :: "input \<Rightarrow> index_t \<Rightarrow> index_t \<Rightarrow> ls_operator \<Rightarrow> solution \<Rightarrow> solution" where
  "refresh_after_move inp best_source best_target best_op sl =
     (let sl1 = straighten_route inp best_target (straighten_route inp best_source sl);
          sl2 = update_amounts inp best_target (update_amounts inp best_source sl1);
          sl3 = try_job_additions inp (addition_candidates best_op) 0 sl2;
          sl4 = set_node_gains inp best_target (set_node_gains inp best_source sl3)
      in set_edge_gains inp best_target (set_edge_gains inp best_source sl4))"

definition apply_best :: "input \<Rightarrow> nat \<Rightarrow> gain_t \<Rightarrow> index_t \<Rightarrow> index_t \<Rightarrow> search \<Rightarrow> failure + search" where
  "apply_best inp V best_gain best_source best_target st =
     (case best_ops st ! best_source ! best_target of
        None \<Rightarrow> Inl NullOperator
      | Some best_op \<Rightarrow>
          (let sl1 = (sol st)\<lparr>routes := apply_to best_op (routes (sol st))\<rparr>;
               previous_cost = route_costs sl1 ! best_source + route_costs sl1 ! best_target;
               sl2 = update_route_cost inp best_target (update_route_cost inp best_source sl1);
               new_cost = route_costs sl2 ! best_source + route_costs sl2 ! best_target
           in if int new_cost + best_gain \<noteq> int previous_cost then Inl GainMismatch
              else Inr (reset_pairs V best_source best_target
                     (st\<lparr>sol := refresh_after_move inp best_source best_target best_op sl2\<rparr>))))"

text \<open>One pass through the body of the \<^verbatim>\<open>while\<close> loop, with the gain that decides the next.\<close>

definition run_round :: "input \<Rightarrow> op_maker \<Rightarrow> nat \<Rightarrow> search \<Rightarrow> failure + (gain_t \<times> search)" where
  "run_round inp mk V st =
     (let st1 = evaluate_all inp mk st
      in case select_best V (best_gains st1) of (best_gain, best_source, best_target) \<Rightarrow>
           if best_gain > 0
           then (case apply_best inp V best_gain best_source best_target st1 of
                   Inl e \<Rightarrow> Inl e
                 | Inr st2 \<Rightarrow> Inr (best_gain, st2))
           else Inr (best_gain, st1))"

text \<open>
  Lines 174--176 and 447: \<^verbatim>\<open>best_gain\<close> starts at \<open>1\<close>, so the body runs at least once,
  and again as long as the run_round ended with a positive gain.
\<close>

partial_function (option) run_loop :: "input \<Rightarrow> op_maker \<Rightarrow> nat \<Rightarrow> search \<Rightarrow> (failure + search) option" where
  "run_loop inp mk V st =
     (case run_round inp mk V st of
        Inl e \<Rightarrow> Some (Inl e)
      | Inr (best_gain, st') \<Rightarrow>
          if best_gain > 0 then run_loop inp mk V st' else Some (Inr st'))"

definition run :: "input \<Rightarrow> op_maker \<Rightarrow> nat \<Rightarrow> solution \<Rightarrow> (failure + search) option" where
  "run inp mk V sl = run_loop inp mk V (initial_search V sl)"

text \<open>
  The exhaustive scans that the early exit is compared with: every target rank is
  visited, in the same order, and a move is built for the ranks that satisfy the capacity
  bound.
\<close>

definition two_opt_exhaustive :: "input \<Rightarrow> solution \<Rightarrow> index_t \<times> index_t \<Rightarrow> move list" where
  "two_opt_exhaustive inp sl s_t =
     (let s = fst s_t; t = snd s_t
      in if t \<le> s then []
         else concat (map (\<lambda>s_rank.
                 let s_free_amount = amount_sub (capacity inp s) (fwd_amounts sl ! s ! s_rank)
                 in map (\<lambda>t_rank. (s, s_rank, t, t_rank))
                      (filter (\<lambda>t_rank. amount_le (bwd_amounts sl ! t ! t_rank) s_free_amount)
                         (rev [0..<length (routes sl ! t)])))
                [0..<length (routes sl ! s)]))"

definition reverse_two_opt_exhaustive :: "input \<Rightarrow> solution \<Rightarrow> index_t \<times> index_t \<Rightarrow> move list" where
  "reverse_two_opt_exhaustive inp sl s_t =
     (let s = fst s_t; t = snd s_t
      in concat (map (\<lambda>s_rank.
                 let s_free_amount = amount_sub (capacity inp s) (fwd_amounts sl ! s ! s_rank)
                 in map (\<lambda>t_rank. (s, s_rank, t, t_rank))
                      (filter (\<lambda>t_rank. amount_le (fwd_amounts sl ! t ! t_rank) s_free_amount)
                         [0..<length (routes sl ! t)]))
                [0..<length (routes sl ! s)]))"

text \<open>All amounts of the jobs of a route have the dimension \<open>d\<close> and no negative component.\<close>

definition non_negative_amounts :: "nat \<Rightarrow> (index_t \<Rightarrow> amount_t) \<Rightarrow> index_t list \<Rightarrow> bool" where
  "non_negative_amounts d ja route =
     list_all (\<lambda>j. length (ja j) = d \<and> list_all (\<lambda>c. 0 \<le> c) (ja j)) route"

text \<open>
  The states of the search at the head of the loop: the first one, and every state a
  round with a positive gain leaves behind.
\<close>

inductive reachable :: "input \<Rightarrow> op_maker \<Rightarrow> nat \<Rightarrow> solution \<Rightarrow> search \<Rightarrow> bool"
  for inp :: input and mk :: op_maker and V :: nat and sl0 :: solution where
  start: "reachable inp mk V sl0 (initial_search V sl0)"
| step: "reachable inp mk V sl0 st \<Longrightarrow> run_round inp mk V st = Inr (best_gain, st') \<Longrightarrow>
         best_gain > 0 \<Longrightarrow> reachable inp mk V sl0 st'"

text \<open>A \<open>V \<times> V\<close> table, and the tables of a search in which every positive gain has a move.\<close>

definition square :: "nat \<Rightarrow> 'a list list \<Rightarrow> bool" where
  "square V m \<longleftrightarrow> length m = V \<and> list_all (\<lambda>row. length row = V) m"

definition positive_gains_have_ops :: "nat \<Rightarrow> search \<Rightarrow> bool" where
  "positive_gains_have_ops V st \<longleftrightarrow>
     square V (best_gains st) \<and> square V (best_ops st) \<and>
     (\<forall>s < V. \<forall>t < V. best_gains st ! s ! t > 0 \<longrightarrow> best_ops st ! s ! t \<noteq> None)"

text \<open>A table of gains in which entries of an older one were kept or set to zero.\<close>

definition zeroed :: "nat \<Rightarrow> gain_t list list \<Rightarrow> gain_t list list \<Rightarrow> bool" where
  "zeroed V old new \<longleftrightarrow>
     square V new \<and> (\<forall>s < V. \<forall>t < V. new ! s ! t = 0 \<or> new ! s ! t = old ! s ! t)"

text \<open>
  What a round with a positive gain makes smaller: the number of unassigned jobs, and at
  an equal number the sum of the cached route costs.
\<close>

definition search_measure :: "search \<Rightarrow> nat \<times> nat" where
  "search_measure st = (length (unassigned (sol st)), sum_list (route_costs (sol st)))"

section \<open>What the round loop needs from the operators\<close>

text \<open>
  The bodies of \<^verbatim>\<open>compute_gain\<close>, \<^verbatim>\<open>is_valid\<close>, \<^verbatim>\<open>apply\<close> and \<^verbatim>\<open>addition_candidates\<close> of
  the six operators are not among the sources.

  Modelled from the spec: the operators, whose bodies are missing.  \<^emph>\<open>For any operator:
  gain must equal \<open>cost_before(source) + cost_before(target) - cost_after(source) -
  cost_after(target)\<close> after application.  Operators never touch more than two routes.\<close>
  And after an engine step \<^emph>\<open>caches for other vehicles are in sync because their routes
  did not change\<close>, so the candidates for reinsertion are the two vehicles of the move.  A
  move knows its two routes only: what holds for the solution it was built on holds for
  every solution with the same source and target route.
\<close>

definition cost_of :: "input \<Rightarrow> index_t list list \<Rightarrow> index_t \<Rightarrow> cost_t" where
  "cost_of inp rs v = route_cost_for_vehicle inp v (rs ! v)"

definition accurate_move :: "input \<Rightarrow> index_t list list \<Rightarrow> index_t \<Rightarrow> index_t \<Rightarrow> ls_operator \<Rightarrow> bool" where
  "accurate_move inp rs s t mv \<longleftrightarrow>
     length (apply_to mv rs) = length rs \<and>
     (\<forall>v. v \<noteq> s \<and> v \<noteq> t \<longrightarrow> apply_to mv rs ! v = rs ! v) \<and>
     gain mv = int (cost_of inp rs s) + int (cost_of inp rs t)
               - int (cost_of inp (apply_to mv rs) s) - int (cost_of inp (apply_to mv rs) t) \<and>
     set (addition_candidates mv) \<subseteq> {s, t}"

definition operator_contract :: "input \<Rightarrow> op_maker \<Rightarrow> bool" where
  "operator_contract inp mk \<longleftrightarrow>
     (\<forall>kind sl s s_rank t t_rank rs.
        is_valid (mk kind sl s s_rank t t_rank) \<and> s \<noteq> t \<and>
        s < length (routes sl) \<and> t < length (routes sl) \<and> length rs = length (routes sl) \<and>
        rs ! s = routes sl ! s \<and> rs ! t = routes sl ! t
        \<longrightarrow> accurate_move inp rs s t (mk kind sl s s_rank t t_rank))"

text \<open>
  The cached route costs are the costs of the routes, and every positive gain of a pair
  belongs to a stored move that is accurate on the present source and target route.
\<close>

definition costs_coherent :: "input \<Rightarrow> nat \<Rightarrow> solution \<Rightarrow> bool" where
  "costs_coherent inp V sl \<longleftrightarrow>
     length (routes sl) = V \<and> length (route_costs sl) = V \<and>
     (\<forall>v < V. route_costs sl ! v = cost_of inp (routes sl) v)"

definition stored_moves_accurate :: "input \<Rightarrow> nat \<Rightarrow> search \<Rightarrow> bool" where
  "stored_moves_accurate inp V st \<longleftrightarrow>
     square V (best_gains st) \<and> square V (best_ops st) \<and> costs_coherent inp V (sol st) \<and>
     (\<forall>s < V. \<forall>t < V. s \<noteq> t \<and> best_gains st ! s ! t > 0 \<longrightarrow>
        (\<exists>mv. best_ops st ! s ! t = Some mv \<and> gain mv = best_gains st ! s ! t \<and>
           (\<forall>rs. length rs = V \<and> rs ! s = routes (sol st) ! s \<and> rs ! t = routes (sol st) ! t
              \<longrightarrow> accurate_move inp rs s t mv)))"

section \<open>A small instance\<close>

text \<open>
  Jobs sit on a line at the position of their index and every vehicle starts at
  position \<open>0\<close>; the cost of a route is the length of the path through its jobs.  Every
  job has amount \<open>1\<close> and every vehicle capacity \<open>10\<close>.  The heuristic for a single route
  returns the jobs in the given order or in the reverse one.  The theorems with
  hypotheses are evaluated on this instance.
\<close>

fun path_cost :: "nat \<Rightarrow> index_t list \<Rightarrow> cost_t" where
  "path_cost p [] = 0"
| "path_cost p (x # xs) = (if p \<le> x then x - p else p - x) + path_cost x xs"

definition demo_input :: input where
  "demo_input =
     \<lparr>amount_size = 1,
      job_amount = unit_amount,
      capacity = (\<lambda>v. [10]),
      vehicle_ok_with_job = (\<lambda>v j. True),
      is_valid_addition_for_tw = (\<lambda>v route j r. True),
      addition_cost = (\<lambda>j v route r.
         int (path_cost 0 (insert_at r j route)) - int (path_cost 0 route)),
      route_cost_for_vehicle = (\<lambda>v route. path_cost 0 route),
      single_route_heuristic = (\<lambda>v route forward. if forward then route else rev route),
      node_gain = (\<lambda>v route r.
         int (path_cost 0 route) - int (path_cost 0 (take r route @ drop (r + 1) route))),
      edge_gain = (\<lambda>v route r.
         int (path_cost 0 route) - int (path_cost 0 (take r route @ drop (r + 2) route))),
      amount_lower_bound = [1],
      double_amount_lower_bound = [2]\<rparr>"

definition demo_solution :: "index_t list list \<Rightarrow> index_t list \<Rightarrow> solution" where
  "demo_solution rs us =
     \<lparr>routes = rs,
      unassigned = us,
      route_costs = map (path_cost 0) rs,
      fwd_amounts = map (recomputed_fwd 1 unit_amount) rs,
      bwd_amounts = map (\<lambda>r. recomputed_bwd (recomputed_fwd 1 unit_amount r)) rs,
      node_gains = map (\<lambda>r. map (node_gain demo_input 0 r) [0..<length r]) rs,
      edge_gains = map (\<lambda>r. map (edge_gain demo_input 0 r) [0..<length r - 1]) rs\<rparr>"

text \<open>The same instance with capacity \<open>3\<close> for every vehicle.\<close>

definition tight_input :: input where
  "tight_input = demo_input\<lparr>capacity := (\<lambda>v. [3])\<rparr>"

text \<open>
  On the instance only the relocate operator yields valid moves: the job at the source
  rank leaves its route and enters the target route at the target rank, the gain is the
  cost saved on the two routes, and the source vehicle is the addition candidate.
\<close>

definition relocate_routes :: "index_t \<Rightarrow> nat \<Rightarrow> index_t \<Rightarrow> nat \<Rightarrow> index_t list list \<Rightarrow> index_t list list" where
  "relocate_routes s s_rank t t_rank rs =
     rs[s := take s_rank (rs ! s) @ drop (s_rank + 1) (rs ! s),
        t := insert_at t_rank (rs ! s ! s_rank) (rs ! t)]"

definition demo_mk :: op_maker where
  "demo_mk kind sl s s_rank t t_rank =
     (case kind of
        Relocate \<Rightarrow>
          \<lparr>gain = int (path_cost 0 (routes sl ! s)) + int (path_cost 0 (routes sl ! t))
                   - int (path_cost 0 (relocate_routes s s_rank t t_rank (routes sl) ! s))
                   - int (path_cost 0 (relocate_routes s s_rank t t_rank (routes sl) ! t)),
           is_valid = True,
           apply_to = relocate_routes s s_rank t t_rank,
           addition_candidates = [s]\<rparr>
      | _ \<Rightarrow> \<lparr>gain = 0, is_valid = False, apply_to = (\<lambda>rs. rs), addition_candidates = []\<rparr>)"

text \<open>
  A state of the search on the routes \<open>[1, 5]\<close> and \<open>[4]\<close> with job \<open>2\<close> unassigned, in
  which the move of job \<open>5\<close> behind job \<open>4\<close>, of gain \<open>3\<close>, is stored for the pair
  \<open>(0, 1)\<close>.
\<close>

definition demo_move :: ls_operator where
  "demo_move = demo_mk Relocate (demo_solution [[1, 5], [4]] [2]) 0 1 1 1"

definition demo_search :: search where
  "demo_search =
     (initial_search 2 (demo_solution [[1, 5], [4]] [2]))
       \<lparr>best_gains := [[0, 3], [0, 0]], best_ops := [[None, Some demo_move], [None, None]]\<rparr>"

section \<open>Facts about amounts and the caches\<close>

lemma length_amount_zero [simp]: "length (amount_zero d) = d"
  by (simp add: amount_zero_def)

lemma length_amount_add [simp]: "length (amount_add a b) = min (length a) (length b)"
  by (simp add: amount_add_def)

lemma length_amount_sub [simp]: "length (amount_sub a b) = min (length a) (length b)"
  by (simp add: amount_sub_def)

lemma amount_add_zero_left: "length a = d \<Longrightarrow> amount_add (amount_zero d) a = a"
  by (simp add: amount_add_def amount_zero_def list_eq_iff_nth_eq)

lemma amount_add_zero_right: "length a = d \<Longrightarrow> amount_add a (amount_zero d) = a"
  by (simp add: amount_add_def amount_zero_def list_eq_iff_nth_eq)

lemma amount_add_assoc:
  "amount_add (amount_add a b) c = amount_add a (amount_add b c)"
  by (simp add: amount_add_def list_eq_iff_nth_eq)

lemma amount_add_commute: "amount_add a b = amount_add b a"
  by (simp add: amount_add_def list_eq_iff_nth_eq)

lemma amount_add_sub_cancel:
  "length a = length b \<Longrightarrow> amount_sub (amount_add a b) a = b"
  by (simp add: amount_add_def amount_sub_def list_eq_iff_nth_eq)

lemma amount_sub_add_right:
  "length t = length a \<Longrightarrow> length a = length j \<Longrightarrow>
   amount_sub (amount_add t j) (amount_add a j) = amount_sub t a"
  by (simp add: amount_add_def amount_sub_def list_eq_iff_nth_eq)

lemma amount_sub_add_left:
  "length t = length a \<Longrightarrow> length a = length j \<Longrightarrow>
   amount_sub (amount_add t j) a = amount_add (amount_sub t a) j"
  by (simp add: amount_add_def amount_sub_def list_eq_iff_nth_eq)

lemma length_foldl_amount_add:
  "length z = d \<Longrightarrow> \<forall>a \<in> set as. length a = d \<Longrightarrow> length (foldl amount_add z as) = d"
  by (induction as arbitrary: z) simp_all

lemma length_amount_sum: "\<forall>a \<in> set as. length a = d \<Longrightarrow> length (amount_sum d as) = d"
  by (simp add: amount_sum_def length_foldl_amount_add)

lemma amount_sum_Nil: "amount_sum d [] = amount_zero d"
  by (simp add: amount_sum_def)

lemma amount_sum_snoc: "amount_sum d (xs @ [y]) = amount_add (amount_sum d xs) y"
  by (simp add: amount_sum_def)

lemma amount_sum_append:
  "\<forall>a \<in> set xs. length a = d \<Longrightarrow> \<forall>a \<in> set ys. length a = d \<Longrightarrow>
   amount_sum d (xs @ ys) = amount_add (amount_sum d xs) (amount_sum d ys)"
proof (induction ys rule: rev_induct)
  case Nil
  then show ?case
    by (simp add: amount_sum_Nil amount_add_zero_right length_amount_sum)
next
  case (snoc y ys)
  have "amount_sum d (xs @ ys @ [y]) = amount_add (amount_sum d (xs @ ys)) y"
    using amount_sum_snoc [of d "xs @ ys" y] by simp
  also have "\<dots> = amount_add (amount_add (amount_sum d xs) (amount_sum d ys)) y"
    using snoc by simp
  also have "\<dots> = amount_add (amount_sum d xs) (amount_sum d (ys @ [y]))"
    by (simp add: amount_add_assoc amount_sum_snoc)
  finally show ?case .
qed

lemma amount_sum_single: "length a = d \<Longrightarrow> amount_sum d [a] = a"
  by (simp add: amount_sum_def amount_add_zero_left)

lemma length_insert_at [simp]: "length (insert_at r x xs) = Suc (length xs)"
  by (simp add: insert_at_def)

lemma nth_insert_at:
  "r \<le> length xs \<Longrightarrow> i \<le> length xs \<Longrightarrow>
   insert_at r x xs ! i = (if i < r then xs ! i else if i = r then x else xs ! (i - 1))"
proof -
  assume r: "r \<le> length xs" and i: "i \<le> length xs"
  have "i > r \<Longrightarrow> (x # drop r xs) ! (i - r) = xs ! (i - 1)"
  proof -
    assume "i > r"
    then obtain k where k: "i - r = Suc k" by (cases "i - r") auto
    with \<open>i > r\<close> have "r + k = i - 1" by arith
    with k r i show ?thesis by simp
  qed
  with r i show ?thesis
    by (auto simp: insert_at_def nth_append min_def)
qed

lemma drop_insert_at_high:
  "r < i \<Longrightarrow> r \<le> length xs \<Longrightarrow> drop (Suc i) (insert_at r x xs) = drop i xs"
  by (simp add: insert_at_def min_def Suc_diff_le)

lemma length_fwd_after_add [simp]:
  "length (fwd_after_add d a r fwd) = Suc (length fwd)"
  by (simp add: fwd_after_add_def Let_def)

lemma nth_fwd_after_add:
  assumes "r \<le> length fwd" and "i \<le> length fwd"
  shows "fwd_after_add d a r fwd ! i =
           (if i < r then fwd ! i
            else if i = r then amount_add (if r = 0 then amount_zero d else fwd ! (r - 1)) a
            else amount_add (fwd ! (i - 1)) a)"
  using assms
  by (auto simp: fwd_after_add_def Let_def nth_append nth_insert_at min_def)

lemma length_foldl_upd:
  "length (foldl (\<lambda>b i. b[i := f i]) xs is) = length xs"
  by (induction "is" arbitrary: xs) simp_all

lemma nth_foldl_upd:
  "foldl (\<lambda>b i. b[i := f i]) xs [0..<n] ! k = (if k < n \<and> k < length xs then f k else xs ! k)"
proof (induction n)
  case 0 show ?case by simp
next
  case (Suc n)
  show ?case
  proof (cases "k = n")
    case True
    then show ?thesis using Suc by (simp add: length_foldl_upd list_update_beyond)
  next
    case False
    then show ?thesis using Suc by (auto simp: length_foldl_upd)
  qed
qed

lemma length_bwd_after_add [simp]:
  "length (bwd_after_add d r fwd' bwd) = Suc (length bwd)"
  by (simp add: bwd_after_add_def Let_def length_foldl_upd)

lemma nth_bwd_after_add:
  assumes "r \<le> length bwd" and "i \<le> length bwd"
  shows "bwd_after_add d r fwd' bwd ! i =
           (if i \<le> r then amount_sub (last fwd') (fwd' ! i) else bwd ! (i - 1))"
  using assms
  by (auto simp: bwd_after_add_def Let_def nth_foldl_upd nth_insert_at simp del: upt_Suc)


lemma amount_sum_commute3:
  "amount_add (amount_add x a) y = amount_add (amount_add x y) a"
  by (simp add: amount_add_def list_eq_iff_nth_eq)

lemma amount_sum_take_insert_low:
  "i < r \<Longrightarrow> r \<le> length as \<Longrightarrow> take (Suc i) (insert_at r a as) = take (Suc i) as"
  by (simp add: insert_at_def min_def)

lemma amount_sum_take_insert_high:
  assumes dims: "\<forall>x \<in> set as. length x = d" and a: "length a = d"
    and r: "r \<le> length as" and ri: "r \<le> i"
  shows "amount_sum d (take (Suc i) (insert_at r a as)) = amount_add (amount_sum d (take i as)) a"
proof -
  have dt: "\<forall>x \<in> set (take r as). length x = d"
    using dims by (auto dest: in_set_takeD)
  have dd: "\<forall>x \<in> set (take (i - r) (drop r as)). length x = d"
    using dims by (auto dest!: in_set_takeD in_set_dropD)
  have split: "take i as = take r as @ take (i - r) (drop r as)"
    using ri take_add [of r "i - r" as] by simp
  have "take (Suc i) (insert_at r a as) = take r as @ [a] @ take (i - r) (drop r as)"
    using r ri by (simp add: insert_at_def min_def Suc_diff_le)
  then have "amount_sum d (take (Suc i) (insert_at r a as))
      = amount_add (amount_sum d (take r as)) (amount_sum d ([a] @ take (i - r) (drop r as)))"
    using amount_sum_append [OF dt, of "[a] @ take (i - r) (drop r as)"] dd a by simp
  also have "amount_sum d ([a] @ take (i - r) (drop r as))
      = amount_add a (amount_sum d (take (i - r) (drop r as)))"
    using amount_sum_append [of "[a]" d "take (i - r) (drop r as)"] dd a
    by (simp add: amount_sum_single)
  also have "amount_add (amount_sum d (take r as)) (amount_add a (amount_sum d (take (i - r) (drop r as))))
      = amount_add (amount_add (amount_sum d (take r as)) (amount_sum d (take (i - r) (drop r as)))) a"
    by (simp add: amount_add_def list_eq_iff_nth_eq)
  also have "amount_add (amount_sum d (take r as)) (amount_sum d (take (i - r) (drop r as)))
      = amount_sum d (take i as)"
    using amount_sum_append [OF dt dd] split by simp
  finally show ?thesis .
qed

lemma length_route_amounts [simp]: "length (route_amounts ja route) = length route"
  by (simp add: route_amounts_def)

lemma route_amounts_insert_at:
  "route_amounts ja (insert_at r j route) = insert_at r (ja j) (route_amounts ja route)"
  by (simp add: route_amounts_def insert_at_def take_map drop_map)

lemma prefix_amount_insert:
  assumes dims: "\<forall>x \<in> set route. length (ja x) = d" and a: "length (ja j) = d"
    and r: "r \<le> length route" and i: "i \<le> length route"
  shows "prefix_amount d ja (insert_at r j route) i =
           (if i < r then prefix_amount d ja route i
            else if i = 0 then ja j
            else amount_add (prefix_amount d ja route (i - 1)) (ja j))"
proof (cases "i < r")
  case True
  then show ?thesis using r
    by (simp add: prefix_amount_def route_amounts_insert_at amount_sum_take_insert_low)
next
  case False
  have dims': "\<forall>x \<in> set (route_amounts ja route). length x = d"
    using dims by (simp add: route_amounts_def)
  have "prefix_amount d ja (insert_at r j route) i
      = amount_add (amount_sum d (take i (route_amounts ja route))) (ja j)"
    using amount_sum_take_insert_high [OF dims' a, of r i] r False
    by (simp add: prefix_amount_def route_amounts_insert_at)
  then show ?thesis using False a
    by (cases i) (simp_all add: prefix_amount_def amount_sum_Nil amount_add_zero_left)
qed


lemma length_recomputed_fwd [simp]: "length (recomputed_fwd d ja route) = length route"
  by (simp add: recomputed_fwd_def)

lemma nth_recomputed_fwd:
  "i < length route \<Longrightarrow> recomputed_fwd d ja route ! i = prefix_amount d ja route i"
  by (simp add: recomputed_fwd_def)

lemma length_recomputed_bwd [simp]: "length (recomputed_bwd fwd) = length fwd"
  by (simp add: recomputed_bwd_def)

lemma nth_recomputed_bwd:
  "i < length fwd \<Longrightarrow> recomputed_bwd fwd ! i = amount_sub (last fwd) (fwd ! i)"
  by (simp add: recomputed_bwd_def)

lemma length_prefix_amount:
  "\<forall>x \<in> set route. length (ja x) = d \<Longrightarrow> length (prefix_amount d ja route i) = d"
  by (auto simp: prefix_amount_def route_amounts_def intro!: length_amount_sum dest!: in_set_takeD)

lemma length_suffix_amount:
  "\<forall>x \<in> set route. length (ja x) = d \<Longrightarrow> length (suffix_amount d ja route i) = d"
  by (auto simp: suffix_amount_def route_amounts_def intro!: length_amount_sum dest!: in_set_dropD)

lemma prefix_amount_last:
  "route \<noteq> [] \<Longrightarrow> prefix_amount d ja route (length route - 1) = amount_sum d (route_amounts ja route)"
  by (cases route) (simp_all add: prefix_amount_def route_amounts_def)

lemma last_recomputed_fwd:
  assumes "route \<noteq> []"
  shows "last (recomputed_fwd d ja route) = amount_sum d (route_amounts ja route)"
proof -
  have "recomputed_fwd d ja route \<noteq> []" using assms by (simp add: recomputed_fwd_def)
  then have "last (recomputed_fwd d ja route) = recomputed_fwd d ja route ! (length route - 1)"
    by (simp add: last_conv_nth)
  also have "\<dots> = prefix_amount d ja route (length route - 1)"
    using assms by (simp add: nth_recomputed_fwd)
  finally show ?thesis using prefix_amount_last [OF assms, of d ja] by simp
qed

lemma total_minus_prefix:
  assumes dims: "\<forall>x \<in> set route. length (ja x) = d"
  shows "amount_sub (amount_sum d (route_amounts ja route)) (prefix_amount d ja route i)
           = suffix_amount d ja route (Suc i)"
proof -
  let ?as = "route_amounts ja route"
  have dt: "\<forall>x \<in> set (take (Suc i) ?as). length x = d"
    using dims by (auto simp: route_amounts_def dest!: in_set_takeD)
  have dd: "\<forall>x \<in> set (drop (Suc i) ?as). length x = d"
    using dims by (auto simp: route_amounts_def dest!: in_set_dropD)
  have "amount_sum d ?as = amount_sum d (take (Suc i) ?as @ drop (Suc i) ?as)" by simp
  also have "\<dots> = amount_add (amount_sum d (take (Suc i) ?as)) (amount_sum d (drop (Suc i) ?as))"
    using amount_sum_append [OF dt dd] .
  finally show ?thesis
    using length_amount_sum [OF dt] length_amount_sum [OF dd]
    by (simp add: prefix_amount_def suffix_amount_def amount_add_sub_cancel)
qed

lemma recomputed_bwd_is_suffix_bwd:
  assumes dims: "\<forall>x \<in> set route. length (ja x) = d"
  shows "recomputed_bwd (recomputed_fwd d ja route) = suffix_bwd d ja route"
proof (cases "route = []")
  case True
  then show ?thesis by (simp add: recomputed_bwd_def recomputed_fwd_def suffix_bwd_def)
next
  case False
  show ?thesis
    by (rule nth_equalityI)
      (simp_all add: suffix_bwd_def nth_recomputed_bwd nth_recomputed_fwd
        last_recomputed_fwd [OF False] total_minus_prefix [OF dims])
qed

lemma fwd_after_add_recomputed:
  assumes dims: "\<forall>x \<in> set route. length (ja x) = d" and a: "length (ja j) = d"
    and r: "r \<le> length route"
  shows "fwd_after_add d (ja j) r (recomputed_fwd d ja route)
           = recomputed_fwd d ja (insert_at r j route)"
proof (rule nth_equalityI)
  show "length (fwd_after_add d (ja j) r (recomputed_fwd d ja route))
          = length (recomputed_fwd d ja (insert_at r j route))"
    by simp
next
  fix i assume "i < length (fwd_after_add d (ja j) r (recomputed_fwd d ja route))"
  then have i: "i \<le> length route" by simp
  have len: "length (recomputed_fwd d ja route) = length route"
    by simp
  have old: "\<And>k. k < length route \<Longrightarrow> recomputed_fwd d ja route ! k = prefix_amount d ja route k"
    by (simp add: nth_recomputed_fwd)
  have new: "recomputed_fwd d ja (insert_at r j route) ! i = prefix_amount d ja (insert_at r j route) i"
    using i by (simp add: nth_recomputed_fwd)
  show "fwd_after_add d (ja j) r (recomputed_fwd d ja route) ! i
          = recomputed_fwd d ja (insert_at r j route) ! i"
    unfolding new prefix_amount_insert [OF dims a r i]
    using nth_fwd_after_add [of r "recomputed_fwd d ja route" i d "ja j"] r i a len
    by (auto simp: old amount_add_zero_left)
qed

lemma bwd_after_add_recomputed:
  assumes dims: "\<forall>x \<in> set route. length (ja x) = d" and a: "length (ja j) = d"
    and r: "r \<le> length route"
  shows "bwd_after_add d r (recomputed_fwd d ja (insert_at r j route))
           (recomputed_bwd (recomputed_fwd d ja route))
           = recomputed_bwd (recomputed_fwd d ja (insert_at r j route))"
proof (rule nth_equalityI)
  show "length (bwd_after_add d r (recomputed_fwd d ja (insert_at r j route))
           (recomputed_bwd (recomputed_fwd d ja route)))
        = length (recomputed_bwd (recomputed_fwd d ja (insert_at r j route)))"
    by simp
next
  let ?route' = "insert_at r j route"
  let ?fwd = "recomputed_fwd d ja route" and ?fwd' = "recomputed_fwd d ja ?route'"
  fix i assume "i < length (bwd_after_add d r ?fwd' (recomputed_bwd ?fwd))"
  then have i: "i \<le> length route" by simp
  have lenb: "length (recomputed_bwd ?fwd) = length route"
    by simp
  have dims': "\<forall>x \<in> set ?route'. length (ja x) = d"
    using dims a by (auto simp: insert_at_def dest: in_set_takeD in_set_dropD)
  have ne: "?route' \<noteq> []" by (simp add: insert_at_def)
  have rhs: "recomputed_bwd ?fwd' ! i = amount_sub (last ?fwd') (?fwd' ! i)"
    using i by (simp add: nth_recomputed_bwd)
  show "bwd_after_add d r ?fwd' (recomputed_bwd ?fwd) ! i = recomputed_bwd ?fwd' ! i"
  proof (cases "i \<le> r")
    case True
    then show ?thesis
      using nth_bwd_after_add [of r "recomputed_bwd ?fwd" i d ?fwd'] r i lenb rhs by simp
  next
    case False
    then have ir: "r < i" by simp
    then have ne0: "route \<noteq> []" using i by auto
    have i1: "i - 1 < length route" using ir i by arith
    have "bwd_after_add d r ?fwd' (recomputed_bwd ?fwd) ! i = recomputed_bwd ?fwd ! (i - 1)"
      using nth_bwd_after_add [of r "recomputed_bwd ?fwd" i d ?fwd'] r i lenb False by simp
    also have "\<dots> = amount_sub (last ?fwd) (?fwd ! (i - 1))"
      using i1 by (simp add: nth_recomputed_bwd)
    also have "\<dots> = suffix_amount d ja route (Suc (i - 1))"
      using i1 by (simp add: last_recomputed_fwd [OF ne0] nth_recomputed_fwd
          total_minus_prefix [OF dims])
    also have "\<dots> = suffix_amount d ja ?route' (Suc i)"
      using ir r i by (simp add: suffix_amount_def route_amounts_insert_at drop_insert_at_high)
    also have "\<dots> = amount_sub (last ?fwd') (?fwd' ! i)"
      using i by (simp add: last_recomputed_fwd [OF ne] nth_recomputed_fwd
          total_minus_prefix [OF dims'])
    finally show ?thesis using rhs by simp
  qed
qed

section \<open>Facts about straightening\<close>

lemma chosen_variant_cases:
  "chosen_variant inp v route = single_route_heuristic inp v route True \<or>
   chosen_variant inp v route = single_route_heuristic inp v route False"
  by (simp add: chosen_variant_def Let_def)

lemma length_chosen_variant:
  "length (chosen_variant inp v route)
     = max (length (single_route_heuristic inp v route True))
           (length (single_route_heuristic inp v route False))"
  by (auto simp: chosen_variant_def Let_def)

lemma cost_chosen_variant:
  "length (single_route_heuristic inp v route True)
     = length (single_route_heuristic inp v route False) \<Longrightarrow>
   route_cost_for_vehicle inp v (chosen_variant inp v route)
     = min (route_cost_for_vehicle inp v (single_route_heuristic inp v route True))
           (route_cost_for_vehicle inp v (single_route_heuristic inp v route False))"
  by (auto simp: chosen_variant_def Let_def)

lemma straighten_route_replaced:
  assumes "routes sl ! v \<noteq> []" and "v < length (routes sl)" and "v < length (route_costs sl)"
    and "length (chosen_variant inp v (routes sl ! v)) = length (routes sl ! v)"
    and "route_cost_for_vehicle inp v (chosen_variant inp v (routes sl ! v)) < route_costs sl ! v"
  shows "routes (straighten_route inp v sl) ! v = chosen_variant inp v (routes sl ! v)"
    and "route_costs (straighten_route inp v sl) ! v
           = route_cost_for_vehicle inp v (chosen_variant inp v (routes sl ! v))"
  using assms by (simp_all add: straighten_route_def Let_def)

lemma straighten_route_unchanged:
  assumes "\<not> (routes sl ! v \<noteq> [] \<and>
      length (chosen_variant inp v (routes sl ! v)) = length (routes sl ! v) \<and>
      route_cost_for_vehicle inp v (chosen_variant inp v (routes sl ! v)) < route_costs sl ! v)"
  shows "straighten_route inp v sl = sl"
  using assms by (auto simp: straighten_route_def Let_def)

lemma length_straighten_route:
  "length (routes (straighten_route inp v sl) ! u) = length (routes sl ! u)"
  by (cases "v < length (routes sl)")
    (auto simp: straighten_route_def Let_def nth_list_update list_update_beyond)

lemma mset_same_length_subset:
  "mset xs \<subseteq># mset ys \<Longrightarrow> length xs = length ys \<Longrightarrow> mset xs = mset ys"
  by (metis size_mset mset_subset_size subset_mset.le_neq_trans less_irrefl)

lemma mset_straighten_route:
  assumes "\<forall>forward. mset (single_route_heuristic inp v (routes sl ! v) forward) \<subseteq># mset (routes sl ! v)"
  shows "mset (routes (straighten_route inp v sl) ! v) = mset (routes sl ! v)"
proof (cases "routes sl ! v \<noteq> [] \<and>
      length (chosen_variant inp v (routes sl ! v)) = length (routes sl ! v) \<and>
      route_cost_for_vehicle inp v (chosen_variant inp v (routes sl ! v)) < route_costs sl ! v")
  case False
  then show ?thesis using straighten_route_unchanged [of sl v inp] by simp
next
  case True
  have sub: "mset (chosen_variant inp v (routes sl ! v)) \<subseteq># mset (routes sl ! v)"
    using chosen_variant_cases [of inp v "routes sl ! v"] assms by auto
  show ?thesis
  proof (cases "v < length (routes sl)")
    case False
    then show ?thesis by (simp add: straighten_route_def Let_def list_update_beyond)
  next
    case v: True
    with True show ?thesis
      using mset_same_length_subset [OF sub] by (simp add: straighten_route_def Let_def)
  qed
qed

section \<open>Facts about the scans of the target ranks\<close>

lemma ranks_until_break_filter:
  "(\<And>as x bs. xs = as @ x # bs \<Longrightarrow> \<not> fits x \<Longrightarrow> \<forall>y \<in> set bs. \<not> fits y) \<Longrightarrow>
   ranks_until_break fits xs = filter fits xs"
proof (induction xs)
  case Nil show ?case by simp
next
  case (Cons x xs)
  show ?case
  proof (cases "fits x")
    case True
    have "ranks_until_break fits xs = filter fits xs"
    proof (rule Cons.IH)
      fix as y bs assume "xs = as @ y # bs" and "\<not> fits y"
      then show "\<forall>z \<in> set bs. \<not> fits z"
        using Cons.prems [of "x # as" y bs] by simp
    qed
    with True show ?thesis by simp
  next
    case False
    then have "\<forall>y \<in> set xs. \<not> fits y" using Cons.prems [of "[]" x xs] by simp
    then have "filter fits xs = []" by (simp add: filter_empty_conv)
    with False show ?thesis by simp
  qed
qed

lemma upt_split_later:
  "[0..<n] = as @ x # bs \<Longrightarrow> \<forall>y \<in> set bs. x < y \<and> y < n"
proof -
  assume eq: "[0..<n] = as @ x # bs"
  have "sorted_wrt (<) (as @ x # bs)" using eq sorted_wrt_upt [of 0 n] by simp
  moreover have "set bs \<subseteq> set [0..<n]" using eq by auto
  ultimately show ?thesis by (auto simp: sorted_wrt_append)
qed

lemma rev_upt_split_later:
  "rev [0..<n] = as @ x # bs \<Longrightarrow> \<forall>y \<in> set bs. y < x \<and> x < n"
proof -
  assume eq: "rev [0..<n] = as @ x # bs"
  then have "[0..<n] = rev bs @ x # rev as" by (simp add: rev_swap)
  moreover have "sorted_wrt (<) [0..<n]" by simp
  ultimately have "sorted_wrt (<) (rev bs @ x # rev as)" by simp
  moreover have "x \<in> set [0..<n]" using eq by (metis in_set_conv_decomp set_rev)
  ultimately show ?thesis by (auto simp: sorted_wrt_append)
qed

lemma amount_le_trans: "amount_le a b \<Longrightarrow> amount_le b c \<Longrightarrow> amount_le a c"
  unfolding amount_le_def by (rule list_all2_trans [where ?P1.0 = "(\<le>)" and ?P2.0 = "(\<le>)"]) auto

lemma amount_le_add_left:
  "length m = length x \<Longrightarrow> \<forall>c \<in> set m. 0 \<le> c \<Longrightarrow> amount_le x (amount_add m x)"
  by (auto simp: amount_le_def amount_add_def list_all2_conv_all_nth)

lemma amount_le_add_right:
  "length m = length x \<Longrightarrow> \<forall>c \<in> set m. 0 \<le> c \<Longrightarrow> amount_le x (amount_add x m)"
  by (auto simp: amount_le_def amount_add_def list_all2_conv_all_nth)

lemma amount_add_nonneg:
  "\<forall>c \<in> set a. 0 \<le> c \<Longrightarrow> \<forall>c \<in> set b. (0::int) \<le> c \<Longrightarrow> \<forall>c \<in> set (amount_add a b). 0 \<le> c"
  by (auto simp: amount_add_def set_zip)

lemma amount_sum_nonneg:
  assumes "\<forall>a \<in> set as. \<forall>c \<in> set a. 0 \<le> c"
  shows "\<forall>c \<in> set (amount_sum d as). 0 \<le> c"
proof -
  have "\<And>z. \<forall>c \<in> set z. 0 \<le> c \<Longrightarrow> \<forall>a \<in> set as. \<forall>c \<in> set a. 0 \<le> c \<Longrightarrow>
      \<forall>c \<in> set (foldl amount_add z as). 0 \<le> c"
  proof (induction as)
    case Nil then show ?case by simp
  next
    case (Cons a as)
    have "\<forall>c \<in> set (amount_add z a). 0 \<le> c"
      using amount_add_nonneg [of z a] Cons.prems by simp
    from Cons.IH [OF this] Cons.prems show ?case by simp
  qed
  from this [of "amount_zero d"] assms show ?thesis
    by (simp add: amount_sum_def amount_zero_def)
qed


lemma non_negative_amountsD:
  assumes "non_negative_amounts d ja route"
  shows "\<forall>x \<in> set route. length (ja x) = d"
    and "\<forall>a \<in> set (route_amounts ja route). length a = d"
    and "\<forall>a \<in> set (route_amounts ja route). \<forall>c \<in> set a. 0 \<le> c"
  using assms by (auto simp: non_negative_amounts_def list_all_iff route_amounts_def)

lemma prefix_amount_mono:
  assumes nn: "non_negative_amounts d ja route" and ik: "i \<le> k"
  shows "amount_le (prefix_amount d ja route i) (prefix_amount d ja route k)"
proof -
  let ?as = "route_amounts ja route"
  let ?lo = "take (Suc i) ?as" and ?mid = "take (k - i) (drop (Suc i) ?as)"
  have dl: "\<forall>a \<in> set ?lo. length a = d"
    using non_negative_amountsD(2) [OF nn] by (auto dest: in_set_takeD)
  have dm: "\<forall>a \<in> set ?mid. length a = d"
    using non_negative_amountsD(2) [OF nn] by (auto dest!: in_set_takeD in_set_dropD)
  have nm: "\<forall>a \<in> set ?mid. \<forall>c \<in> set a. 0 \<le> c"
    using non_negative_amountsD(3) [OF nn] by (auto dest!: in_set_takeD in_set_dropD)
  have "take (Suc k) ?as = ?lo @ ?mid"
    using ik take_add [of "Suc i" "k - i" ?as] by simp
  then have "prefix_amount d ja route k
      = amount_add (prefix_amount d ja route i) (amount_sum d ?mid)"
    using amount_sum_append [OF dl dm] by (simp add: prefix_amount_def)
  moreover have "length (amount_sum d ?mid) = length (prefix_amount d ja route i)"
    using length_amount_sum [OF dm] length_amount_sum [OF dl] by (simp add: prefix_amount_def)
  ultimately show ?thesis
    using amount_le_add_right [of "amount_sum d ?mid" "prefix_amount d ja route i"]
      amount_sum_nonneg [OF nm, of d] by simp
qed

lemma suffix_amount_mono:
  assumes nn: "non_negative_amounts d ja route" and ik: "i \<le> k"
  shows "amount_le (suffix_amount d ja route k) (suffix_amount d ja route i)"
proof -
  let ?as = "route_amounts ja route"
  let ?mid = "take (k - i) (drop i ?as)" and ?hi = "drop k ?as"
  have dh: "\<forall>a \<in> set ?hi. length a = d"
    using non_negative_amountsD(2) [OF nn] by (auto dest: in_set_dropD)
  have dm: "\<forall>a \<in> set ?mid. length a = d"
    using non_negative_amountsD(2) [OF nn] by (auto dest!: in_set_takeD in_set_dropD)
  have nm: "\<forall>a \<in> set ?mid. \<forall>c \<in> set a. 0 \<le> c"
    using non_negative_amountsD(3) [OF nn] by (auto dest!: in_set_takeD in_set_dropD)
  have "drop i ?as = ?mid @ drop (k - i) (drop i ?as)"
    using append_take_drop_id [of "k - i" "drop i ?as"] by (simp del: append_take_drop_id drop_drop)
  then have "drop i ?as = ?mid @ ?hi" using ik by simp
  then have "suffix_amount d ja route i
      = amount_add (amount_sum d ?mid) (suffix_amount d ja route k)"
    using amount_sum_append [OF dm dh] by (simp add: suffix_amount_def)
  moreover have "length (amount_sum d ?mid) = length (suffix_amount d ja route k)"
    using length_amount_sum [OF dm] length_amount_sum [OF dh] by (simp add: suffix_amount_def)
  ultimately show ?thesis
    using amount_le_add_left [of "amount_sum d ?mid" "suffix_amount d ja route k"]
      amount_sum_nonneg [OF nm, of d] by simp
qed

lemma fwd_scan_is_filter:
  assumes nn: "non_negative_amounts d ja route"
    and fwd: "fwd = recomputed_fwd d ja route"
  shows "ranks_until_break (\<lambda>t_rank. amount_le (fwd ! t_rank) free) [0..<length route]
           = filter (\<lambda>t_rank. amount_le (fwd ! t_rank) free) [0..<length route]"
proof (rule ranks_until_break_filter)
  fix as x bs
  assume split: "[0..<length route] = as @ x # bs" and fail: "\<not> amount_le (fwd ! x) free"
  show "\<forall>y \<in> set bs. \<not> amount_le (fwd ! y) free"
  proof
    fix y assume "y \<in> set bs"
    then have xy: "x < y" and y: "y < length route"
      using upt_split_later [OF split] by auto
    have "amount_le (fwd ! x) (fwd ! y)"
      using prefix_amount_mono [OF nn, of x y] xy y by (simp add: fwd nth_recomputed_fwd)
    then show "\<not> amount_le (fwd ! y) free"
      using fail amount_le_trans by blast
  qed
qed

lemma bwd_scan_is_filter:
  assumes nn: "non_negative_amounts d ja route"
    and bwd: "bwd = recomputed_bwd (recomputed_fwd d ja route)"
  shows "ranks_until_break (\<lambda>t_rank. amount_le (bwd ! t_rank) free) (rev [0..<length route])
           = filter (\<lambda>t_rank. amount_le (bwd ! t_rank) free) (rev [0..<length route])"
proof (rule ranks_until_break_filter)
  fix as x bs
  assume split: "rev [0..<length route] = as @ x # bs" and fail: "\<not> amount_le (bwd ! x) free"
  have sb: "bwd = suffix_bwd d ja route"
    using bwd recomputed_bwd_is_suffix_bwd [OF non_negative_amountsD(1) [OF nn]] by simp
  have nth: "\<And>r. r < length route \<Longrightarrow> bwd ! r = suffix_amount d ja route (Suc r)"
    unfolding sb suffix_bwd_def by simp
  show "\<forall>y \<in> set bs. \<not> amount_le (bwd ! y) free"
  proof
    fix y assume "y \<in> set bs"
    then have yx: "y < x" and x: "x < length route"
      using rev_upt_split_later [OF split] by auto
    have "amount_le (bwd ! x) (bwd ! y)"
      using suffix_amount_mono [OF nn, of "Suc y" "Suc x"] yx x by (simp add: nth)
    then show "\<not> amount_le (bwd ! y) free"
      using fail amount_le_trans by blast
  qed
qed

section \<open>Facts about the rounds\<close>

subsection \<open>What the evaluation of moves preserves\<close>

lemma foldl_preserves:
  "(\<And>st x. P st \<Longrightarrow> P (f st x)) \<Longrightarrow> P st \<Longrightarrow> P (foldl f st xs)"
  by (induction xs arbitrary: st) simp_all

lemma foldl_evaluate_steps:
  assumes e: "\<And>kind x m. P x \<Longrightarrow> P (evaluate mk kind x m)" and st: "P st"
  shows "P (foldl (evaluate mk kind) st ms)"
  using foldl_preserves [of P "evaluate mk kind" st ms, OF e st] .

lemma relocate_rank_steps:
  assumes e: "\<And>kind x m. P x \<Longrightarrow> P (evaluate mk kind x m)" and st: "P st"
  shows "P (relocate_rank mk s t st s_rank)"
  unfolding relocate_rank_def
  using foldl_evaluate_steps [of P mk st Relocate, OF e st] st by (simp del: upt_Suc)

lemma or_opt_rank_steps:
  assumes e: "\<And>kind x m. P x \<Longrightarrow> P (evaluate mk kind x m)" and st: "P st"
  shows "P (or_opt_rank mk s t st s_rank)"
  unfolding or_opt_rank_def
  using foldl_evaluate_steps [of P mk st OrOpt, OF e st] st by (simp del: upt_Suc)

lemma relocate_pair_steps:
  assumes e: "\<And>kind x m. P x \<Longrightarrow> P (evaluate mk kind x m)" and st: "P st"
  shows "P (relocate_pair inp mk st s_t)"
proof -
  have step: "\<And>x r. P x \<Longrightarrow> P (relocate_rank mk (fst s_t) (snd s_t) x r)"
    using relocate_rank_steps [of P mk, OF e] by blast
  have "P (foldl (relocate_rank mk (fst s_t) (snd s_t)) st xs)" for xs
    using foldl_preserves [of P "relocate_rank mk (fst s_t) (snd s_t)" st xs, OF step st] .
  then show ?thesis using st by (simp add: relocate_pair_def Let_def)
qed

lemma or_opt_pair_steps:
  assumes e: "\<And>kind x m. P x \<Longrightarrow> P (evaluate mk kind x m)" and st: "P st"
  shows "P (or_opt_pair inp mk st s_t)"
proof -
  have step: "\<And>x r. P x \<Longrightarrow> P (or_opt_rank mk (fst s_t) (snd s_t) x r)"
    using or_opt_rank_steps [of P mk, OF e] by blast
  have "P (foldl (or_opt_rank mk (fst s_t) (snd s_t)) st xs)" for xs
    using foldl_preserves [of P "or_opt_rank mk (fst s_t) (snd s_t)" st xs, OF step st] .
  then show ?thesis using st by (simp add: or_opt_pair_def Let_def)
qed

lemma evaluate_all_steps:
  assumes e: "\<And>kind x m. P x \<Longrightarrow> P (evaluate mk kind x m)" and st: "P st"
  shows "P (evaluate_all inp mk st)"
proof -
  have ev: "\<And>x kind ms. P x \<Longrightarrow> P (foldl (evaluate mk kind) x ms)"
    using foldl_evaluate_steps [of P mk, OF e] by blast
  have rel: "\<And>x p. P x \<Longrightarrow> P (relocate_pair inp mk x p)"
    using relocate_pair_steps [of P mk, OF e] by blast
  have oro: "\<And>x p. P x \<Longrightarrow> P (or_opt_pair inp mk x p)"
    using or_opt_pair_steps [of P mk, OF e] by blast
  have 1: "P (exchange_phase mk st)"
    unfolding exchange_phase_def by (rule ev [OF st])
  have 2: "P (cross_exchange_phase mk (exchange_phase mk st))"
    unfolding cross_exchange_phase_def by (rule ev [OF 1])
  have 3: "P (two_opt_phase inp mk (cross_exchange_phase mk (exchange_phase mk st)))"
    unfolding two_opt_phase_def by (rule ev [OF 2])
  have 4: "P (reverse_two_opt_phase inp mk
      (two_opt_phase inp mk (cross_exchange_phase mk (exchange_phase mk st))))"
    unfolding reverse_two_opt_phase_def by (rule ev [OF 3])
  have 5: "P (relocate_phase inp mk (reverse_two_opt_phase inp mk
      (two_opt_phase inp mk (cross_exchange_phase mk (exchange_phase mk st)))))"
    unfolding relocate_phase_def
    using foldl_preserves [of P "relocate_pair inp mk", OF rel 4] .
  show ?thesis
    unfolding evaluate_all_def or_opt_phase_def
    using foldl_preserves [of P "or_opt_pair inp mk", OF oro 5] .
qed

lemma evaluate_all_preserves:
  assumes k: "\<And>r s t st. P st \<Longrightarrow> P (keep_if_better r s t st)" and st: "P st"
  shows "P (evaluate_all inp mk st)"
proof -
  have "P (evaluate mk kind x m)" if "P x" for kind x m
    using that k by (cases m) (simp add: evaluate_def)
  then show ?thesis using evaluate_all_steps [of P mk st inp] st by blast
qed

lemma evaluate_all_sol [simp]: "sol (evaluate_all inp mk st) = sol st"
  using evaluate_all_preserves [of "\<lambda>x. sol x = sol st" st inp mk]
  by (simp add: keep_if_better_def)

lemma evaluate_all_pairs [simp]: "s_t_pairs (evaluate_all inp mk st) = s_t_pairs st"
  using evaluate_all_preserves [of "\<lambda>x. s_t_pairs x = s_t_pairs st" st inp mk]
  by (simp add: keep_if_better_def)

subsection \<open>Tables\<close>

lemma square_nth: "square V m \<Longrightarrow> s < V \<Longrightarrow> length (m ! s) = V"
  by (simp add: square_def list_all_length)

lemma square_set2: "square V m \<Longrightarrow> square V (set2 m s t x)"
proof -
  assume sq: "square V m"
  have "length (m[s := (m ! s)[t := x]] ! n) = V" if "n < V" for n
    using sq that by (cases "n = s") (simp_all add: square_def list_all_length)
  then show ?thesis using sq by (simp add: square_def set2_def list_all_length)
qed

lemma nth_set2:
  "square V m \<Longrightarrow> s' < V \<Longrightarrow> t' < V \<Longrightarrow>
   set2 m s t x ! s' ! t' = (if s' = s \<and> t' = t then x else m ! s' ! t')"
  by (cases "s' = s"; cases "t' = t") (simp_all add: square_def set2_def list_all_length)

lemma square_replicate: "square V (replicate V (replicate V x))"
  by (simp add: square_def list_all_length)

lemma keep_if_better_invariant:
  "positive_gains_have_ops V st \<Longrightarrow> positive_gains_have_ops V (keep_if_better r s t st)"
  by (auto simp: positive_gains_have_ops_def keep_if_better_def square_set2 nth_set2)

lemma evaluate_all_invariant:
  "positive_gains_have_ops V st \<Longrightarrow> positive_gains_have_ops V (evaluate_all inp mk st)"
  using evaluate_all_preserves [of "positive_gains_have_ops V" st inp mk]
    keep_if_better_invariant by blast

lemma initial_search_invariant: "positive_gains_have_ops V (initial_search V sl)"
  by (simp add: positive_gains_have_ops_def initial_search_def square_replicate)


subsection \<open>The selection\<close>

lemma select_fold:
  assumes "0 \<le> g0"
    and "g0 > 0 \<longrightarrow> s0 \<noteq> t0 \<and> (s0, t0) \<in> A \<and> gains ! s0 ! t0 = g0"
    and "\<forall>(s, t) \<in> A. s \<noteq> t \<longrightarrow> gains ! s ! t \<le> g0"
  shows "case foldl (select_step gains) (g0, s0, t0) ps of (g, bs, bt) \<Rightarrow>
           0 \<le> g \<and> (g > 0 \<longrightarrow> bs \<noteq> bt \<and> (bs, bt) \<in> A \<union> set ps \<and> gains ! bs ! bt = g) \<and>
           (\<forall>(s, t) \<in> A \<union> set ps. s \<noteq> t \<longrightarrow> gains ! s ! t \<le> g)"
  using assms
proof (induction ps arbitrary: g0 s0 t0 A)
  case Nil
  then show ?case by simp
next
  case (Cons p ps)
  obtain s t where p: "p = (s, t)" by (cases p)
  obtain g1 s1 t1 where step: "select_step gains (g0, s0, t0) p = (g1, s1, t1)"
    by (cases "select_step gains (g0, s0, t0) p") auto
  have a: "0 \<le> g1" using step Cons.prems(1) by (auto simp: select_step_def p split: if_splits)
  have b: "g1 > 0 \<longrightarrow> s1 \<noteq> t1 \<and> (s1, t1) \<in> insert p A \<and> gains ! s1 ! t1 = g1"
    using step Cons.prems(2) by (auto simp: select_step_def p split: if_splits)
  have c: "\<forall>(s, t) \<in> insert p A. s \<noteq> t \<longrightarrow> gains ! s ! t \<le> g1"
    using step Cons.prems(3) by (fastforce simp: select_step_def p split: if_splits)
  from Cons.IH [OF a b c] show ?case by (simp add: step)
qed

lemma set_all_pairs:
  "set (concat (map (\<lambda>s_v. map (\<lambda>t_v. (s_v, t_v)) [0..<V]) [0..<V])) = {(s, t). s < V \<and> t < V}"
  by auto

lemma select_best_props:
  assumes "select_best V gains = (g, bs, bt)"
  shows "0 \<le> g" and "g > 0 \<Longrightarrow> bs \<noteq> bt \<and> bs < V \<and> bt < V \<and> gains ! bs ! bt = g"
    and "\<And>s t. s < V \<Longrightarrow> t < V \<Longrightarrow> s \<noteq> t \<Longrightarrow> gains ! s ! t \<le> g"
proof -
  have "case foldl (select_step gains) (0, 0, 0)
              (concat (map (\<lambda>s_v. map (\<lambda>t_v. (s_v, t_v)) [0..<V]) [0..<V])) of
          (g, bs, bt) \<Rightarrow>
           0 \<le> g \<and> (g > 0 \<longrightarrow> bs \<noteq> bt \<and>
               (bs, bt) \<in> {} \<union> set (concat (map (\<lambda>s_v. map (\<lambda>t_v. (s_v, t_v)) [0..<V]) [0..<V])) \<and>
               gains ! bs ! bt = g) \<and>
           (\<forall>(s, t) \<in> {} \<union> set (concat (map (\<lambda>s_v. map (\<lambda>t_v. (s_v, t_v)) [0..<V]) [0..<V])).
               s \<noteq> t \<longrightarrow> gains ! s ! t \<le> g)"
    by (rule select_fold) simp_all
  then have all: "0 \<le> g \<and> (g > 0 \<longrightarrow> bs \<noteq> bt \<and> (bs, bt) \<in> {(s, t). s < V \<and> t < V} \<and>
               gains ! bs ! bt = g) \<and>
           (\<forall>(s, t) \<in> {(s, t). s < V \<and> t < V}. s \<noteq> t \<longrightarrow> gains ! s ! t \<le> g)"
    using assms unfolding select_best_def set_all_pairs by simp
  show "0 \<le> g" using all by simp
  show "g > 0 \<Longrightarrow> bs \<noteq> bt \<and> bs < V \<and> bt < V \<and> gains ! bs ! bt = g" using all by simp
  show "\<And>s t. s < V \<Longrightarrow> t < V \<Longrightarrow> s \<noteq> t \<Longrightarrow> gains ! s ! t \<le> g" using all by auto
qed

subsection \<open>The reset of the gains\<close>


lemma zeroed_set2:
  assumes "zeroed V old g"
  shows "zeroed V old (set2 g s t 0)"
proof -
  have sq: "square V g" using assms by (simp add: zeroed_def)
  have "set2 g s t 0 ! s' ! t' = 0 \<or> set2 g s t 0 ! s' ! t' = old ! s' ! t'"
    if "s' < V" "t' < V" for s' t'
    using assms that by (simp add: nth_set2 [OF sq] zeroed_def)
  then show ?thesis using square_set2 [OF sq] by (simp add: zeroed_def)
qed

lemma zeroed_row:
  assumes "zeroed V old g"
  shows "zeroed V old (g[s := replicate V 0])"
proof -
  have "length (g[s := replicate V 0] ! n) = V" if "n < V" for n
    using assms that by (cases "n = s") (simp_all add: zeroed_def square_def list_all_length)
  then have sq: "square V (g[s := replicate V 0])"
    using assms by (simp add: zeroed_def square_def list_all_length)
  have "g[s := replicate V 0] ! s' ! t' = 0 \<or> g[s := replicate V 0] ! s' ! t' = old ! s' ! t'"
    if "s' < V" "t' < V" for s' t'
    using assms that by (cases "s' = s") (auto simp: zeroed_def square_def)
  then show ?thesis using sq by (simp add: zeroed_def)
qed

lemma zeroed_reset_gains_step:
  "zeroed V old g \<Longrightarrow> zeroed V old (reset_gains_step bs bt g v)"
  by (simp add: reset_gains_step_def zeroed_set2)

lemma zeroed_reset:
  assumes "square V (best_gains st)"
  shows "zeroed V (best_gains st) (best_gains (reset_pairs V bs bt st))"
proof -
  have 0: "zeroed V (best_gains st) (best_gains st)" using assms by (simp add: zeroed_def)
  have 1: "zeroed V (best_gains st) ((best_gains st)[bs := replicate V 0, bt := replicate V 0])"
    by (intro zeroed_row 0)
  have "zeroed V (best_gains st) (foldl (reset_gains_step bs bt)
      ((best_gains st)[bs := replicate V 0, bt := replicate V 0]) vs)" for vs
    using foldl_preserves [of "zeroed V (best_gains st)" "reset_gains_step bs bt", OF _ 1]
      zeroed_reset_gains_step by blast
  then show ?thesis by (simp add: reset_pairs_def)
qed

lemma reset_pairs_fields [simp]:
  "sol (reset_pairs V bs bt st) = sol st"
  "best_ops (reset_pairs V bs bt st) = best_ops st"
  by (simp_all add: reset_pairs_def)

lemma reset_pairs_invariant:
  assumes "positive_gains_have_ops V st"
  shows "positive_gains_have_ops V (reset_pairs V bs bt st)"
proof -
  have sq: "square V (best_gains st)" using assms by (simp add: positive_gains_have_ops_def)
  from zeroed_reset [OF sq, of bs bt] assms show ?thesis
    unfolding positive_gains_have_ops_def zeroed_def by (simp, metis less_irrefl)
qed

lemma reset_pairs_distinct_vehicles:
  "bs \<noteq> bt \<Longrightarrow> (s, t) \<in> set (s_t_pairs (reset_pairs V bs bt st)) \<Longrightarrow> s \<noteq> t"
  by (auto simp: reset_pairs_def split: if_splits)

lemma reset_pairs_symmetric:
  "(s, t) \<in> set (s_t_pairs (reset_pairs V bs bt st))
     \<Longrightarrow> (t, s) \<in> set (s_t_pairs (reset_pairs V bs bt st))"
  by (auto simp: reset_pairs_def split: if_splits)

lemma initial_pairs:
  "set (s_t_pairs (initial_search V sl)) = {(s, t). s < V \<and> t < V \<and> s \<noteq> t}"
  by (auto simp: initial_search_def split: if_splits)

subsection \<open>Rounds\<close>

lemma apply_best_invariant:
  assumes "positive_gains_have_ops V st" and "apply_best inp V g bs bt st = Inr st'"
  shows "positive_gains_have_ops V st'"
proof -
  obtain op where "best_ops st ! bs ! bt = Some op"
    using assms(2) by (auto simp: apply_best_def split: option.splits)
  then obtain sl' where st': "st' = reset_pairs V bs bt (st\<lparr>sol := sl'\<rparr>)"
    using assms(2) by (auto simp: apply_best_def Let_def split: if_splits)
  have "positive_gains_have_ops V (st\<lparr>sol := sl'\<rparr>)"
    using assms(1) by (simp add: positive_gains_have_ops_def)
  then show ?thesis unfolding st' by (rule reset_pairs_invariant)
qed

lemma run_round_invariant:
  assumes "positive_gains_have_ops V st" and "run_round inp mk V st = Inr (g, st')"
  shows "positive_gains_have_ops V st'"
proof -
  obtain g1 bs bt where sel: "select_best V (best_gains (evaluate_all inp mk st)) = (g1, bs, bt)"
    by (cases "select_best V (best_gains (evaluate_all inp mk st))") auto
  have inv1: "positive_gains_have_ops V (evaluate_all inp mk st)"
    using assms(1) by (rule evaluate_all_invariant)
  show ?thesis
  proof (cases "g1 > 0")
    case True
    then have "apply_best inp V g1 bs bt (evaluate_all inp mk st) = Inr st'"
      using assms(2) sel by (auto simp: run_round_def Let_def split: sum.splits)
    with inv1 show ?thesis by (rule apply_best_invariant)
  next
    case False
    then have "st' = evaluate_all inp mk st"
      using assms(2) sel by (auto simp: run_round_def Let_def)
    with inv1 show ?thesis by simp
  qed
qed

lemma reachable_invariant:
  "reachable inp mk V sl0 st \<Longrightarrow> positive_gains_have_ops V st"
  by (induction rule: reachable.induct)
    (auto intro: initial_search_invariant run_round_invariant)

lemma selection_has_op:
  assumes inv: "positive_gains_have_ops V st1" and sel: "select_best V (best_gains st1) = (g, bs, bt)"
    and g: "g > 0"
  shows "best_ops st1 ! bs ! bt \<noteq> None"
  using select_best_props(2) [OF sel g] inv g by (auto simp: positive_gains_have_ops_def)

section \<open>Facts about the pairs and the moves built for them\<close>

lemma ranks_until_break_takeWhile: "ranks_until_break fits xs = takeWhile fits xs"
  by (induction xs) simp_all

lemma mem_takeWhile_upt:
  "i \<le> x \<Longrightarrow> x < n \<Longrightarrow> (\<forall>k. i \<le> k \<and> k \<le> x \<longrightarrow> P k) \<Longrightarrow> x \<in> set (takeWhile P [i..<n])"
proof (induction "n - i" arbitrary: i)
  case 0
  then show ?case by simp
next
  case (Suc d)
  then have "i < n" by simp
  then have split: "[i..<n] = i # [Suc i..<n]" by (simp add: upt_conv_Cons)
  show ?case
  proof (cases "x = i")
    case True
    then show ?thesis using Suc.prems split by simp
  next
    case False
    then have "Suc i \<le> x" using Suc.prems by simp
    moreover have "d = n - Suc i" using Suc.hyps(2) by simp
    ultimately have "x \<in> set (takeWhile P [Suc i..<n])"
      using Suc.hyps(1) [of "Suc i"] Suc.prems by simp
    then show ?thesis using Suc.prems split by simp
  qed
qed

lemma exchange_moves_ordered:
  "m \<in> set (exchange_moves sl p) \<Longrightarrow> fst p < snd p \<and> fst m = fst p \<and> fst (snd (snd m)) = snd p"
  by (auto simp: exchange_moves_def Let_def split: if_splits)

lemma cross_exchange_moves_ordered:
  "m \<in> set (cross_exchange_moves sl p) \<Longrightarrow>
   fst p < snd p \<and> fst m = fst p \<and> fst (snd (snd m)) = snd p"
  by (auto simp: cross_exchange_moves_def Let_def split: if_splits)

lemma two_opt_moves_ordered:
  "m \<in> set (two_opt_moves inp sl p) \<Longrightarrow>
   fst p < snd p \<and> fst m = fst p \<and> fst (snd (snd m)) = snd p"
  by (auto simp: two_opt_moves_def Let_def split: if_splits)

lemma reverse_two_opt_moves_both_orders:
  assumes "s_rank < length (routes sl ! s)" and "t_rank < length (routes sl ! t)"
    and "\<forall>k \<le> t_rank. amount_le (fwd_amounts sl ! t ! k)
           (amount_sub (capacity inp s) (fwd_amounts sl ! s ! s_rank))"
  shows "(s, s_rank, t, t_rank) \<in> set (reverse_two_opt_moves inp sl (s, t))"
proof -
  have "t_rank \<in> set (takeWhile (\<lambda>t_rank. amount_le (fwd_amounts sl ! t ! t_rank)
           (amount_sub (capacity inp s) (fwd_amounts sl ! s ! s_rank))) [0..<length (routes sl ! t)])"
    using assms(2,3) by (intro mem_takeWhile_upt) simp_all
  then show ?thesis
    using assms(1)
    by (auto simp: reverse_two_opt_moves_def Let_def ranks_until_break_takeWhile)
qed

lemma apply_best_pairs:
  assumes "apply_best inp V g bs bt st = Inr st'"
  shows "s_t_pairs st' = s_t_pairs (reset_pairs V bs bt st)"
  using assms by (auto simp: apply_best_def Let_def reset_pairs_def split: option.splits if_splits)

lemma run_round_pairs:
  assumes "run_round inp mk V st = Inr (g, st')" and "g > 0"
  shows "\<exists>bs bt x. bs \<noteq> bt \<and> s_t_pairs st' = s_t_pairs (reset_pairs V bs bt x)"
proof -
  obtain g1 bs bt where sel: "select_best V (best_gains (evaluate_all inp mk st)) = (g1, bs, bt)"
    by (cases "select_best V (best_gains (evaluate_all inp mk st))") auto
  have g1: "g1 > 0" using assms sel by (auto simp: run_round_def Let_def split: if_splits sum.splits)
  then have "apply_best inp V g1 bs bt (evaluate_all inp mk st) = Inr st'"
    using assms(1) sel by (auto simp: run_round_def Let_def split: sum.splits)
  from apply_best_pairs [OF this] select_best_props(2) [OF sel g1] show ?thesis by blast
qed

lemma reachable_pairs:
  assumes "reachable inp mk V sl0 st" and "(s, t) \<in> set (s_t_pairs st)"
  shows "s \<noteq> t \<and> (t, s) \<in> set (s_t_pairs st)"
  using assms
proof (induction rule: reachable.induct)
  case start
  then show ?case by (auto simp: initial_pairs)
next
  case (step st best_gain st')
  from run_round_pairs [OF step.hyps(2,3)] obtain bs bt x
    where "bs \<noteq> bt" and "s_t_pairs st' = s_t_pairs (reset_pairs V bs bt x)" by blast
  then show ?case
    using step.prems reset_pairs_distinct_vehicles [of bs bt s t V x]
      reset_pairs_symmetric [of s t V bs bt x] by simp
qed

section \<open>Facts about the passes of the reinsertion\<close>

lemma eval_step_eq:
  "eval_step c rts j bcs brs (two_smallest bcs) best i =
     (if bcs ! i = gain_max then best
      else if code_score c bcs i < best_cost best
           then \<lparr>best_cost = code_score c bcs i, best_job = j, best_route = rts ! i,
                  best_rank = brs ! i\<rparr>
           else best)"
  by (cases "two_smallest bcs") (simp add: eval_step_def code_score_def Let_def)

lemma eval_fold:
  fixes pick :: "nat \<Rightarrow> addition"
  assumes pick: "\<And>i. pick i = \<lparr>best_cost = code_score c bcs i, best_job = j, best_route = rts ! i,
                  best_rank = brs ! i\<rparr>"
  shows "(let b = foldl (eval_step c rts j bcs brs (two_smallest bcs)) b0 [0..<n]
          in (b = b0 \<or> (\<exists>i < n. bcs ! i \<noteq> gain_max \<and> b = pick i)) \<and>
             best_cost b \<le> best_cost b0 \<and>
             (\<forall>i < n. bcs ! i \<noteq> gain_max \<longrightarrow> best_cost b \<le> code_score c bcs i))"
proof (induction n)
  case 0
  show ?case by simp
next
  case (Suc n)
  let ?b = "foldl (eval_step c rts j bcs brs (two_smallest bcs)) b0 [0..<n]"
  have ih1: "?b = b0 \<or> (\<exists>i < n. bcs ! i \<noteq> gain_max \<and> ?b = pick i)"
    and ih2: "best_cost ?b \<le> best_cost b0"
    and ih3: "\<forall>i < n. bcs ! i \<noteq> gain_max \<longrightarrow> best_cost ?b \<le> code_score c bcs i"
    using Suc unfolding Let_def by blast+
  let ?b' = "eval_step c rts j bcs brs (two_smallest bcs) ?b n"
  have fold: "foldl (eval_step c rts j bcs brs (two_smallest bcs)) b0 [0..<Suc n] = ?b'" by simp
  consider (skip) "bcs ! n = gain_max \<or> \<not> code_score c bcs n < best_cost ?b"
    | (take) "bcs ! n \<noteq> gain_max" "code_score c bcs n < best_cost ?b" by blast
  then show ?case
  proof cases
    case skip
    then have same: "?b' = ?b" by (auto simp: eval_step_eq)
    have "\<forall>i < Suc n. bcs ! i \<noteq> gain_max \<longrightarrow> best_cost ?b \<le> code_score c bcs i"
      using ih3 skip by (auto simp: less_Suc_eq)
    then show ?thesis
      unfolding Let_def fold same using ih1 ih2 by (auto simp: less_Suc_eq)
  next
    case take
    then have new: "?b' = pick n" by (simp add: eval_step_eq pick)
    have bc: "best_cost (pick n) = code_score c bcs n" by (simp add: pick)
    have "\<forall>i < Suc n. bcs ! i \<noteq> gain_max \<longrightarrow> best_cost (pick n) \<le> code_score c bcs i"
      using ih3 take(2) bc by (auto simp: less_Suc_eq)
    then show ?thesis
      unfolding Let_def fold new using take ih2 bc by (auto simp: less_Suc_eq)
  qed
qed

lemma job_step_props:
  "(let b = job_step inp sl rts c b0 j
    in (b = b0 \<or> (\<exists>i < length rts. pass_costs inp sl rts j ! i \<noteq> gain_max \<and>
                     b = pass_choice inp sl rts c j i)) \<and>
       best_cost b \<le> best_cost b0 \<and>
       (\<forall>i < length rts. pass_costs inp sl rts j ! i \<noteq> gain_max
          \<longrightarrow> best_cost b \<le> code_score c (pass_costs inp sl rts j) i))"
proof -
  let ?bcs = "pass_costs inp sl rts j"
  let ?brs = "map (\<lambda>v. snd (best_addition inp sl j v)) rts"
  let ?pick = "\<lambda>i. \<lparr>best_cost = code_score c ?bcs i, best_job = j, best_route = rts ! i,
                  best_rank = ?brs ! i\<rparr>"
  have js: "job_step inp sl rts c b0 j
      = foldl (eval_step c rts j ?bcs ?brs (two_smallest ?bcs)) b0 [0..<length rts]"
    by (simp add: job_step_def pass_costs_def Let_def)
  have pc: "\<And>i. i < length rts \<Longrightarrow> ?pick i = pass_choice inp sl rts c j i"
    by (simp add: pass_choice_def)
  from eval_fold [of ?pick c ?bcs j rts ?brs b0 "length rts"]
  show ?thesis unfolding js Let_def using pc by auto
qed

lemma find_best_addition_props:
  "(let b = foldl (job_step inp sl rts c) b0 js
    in (b = b0 \<or> (\<exists>j \<in> set js. \<exists>i < length rts. pass_costs inp sl rts j ! i \<noteq> gain_max \<and>
                     b = pass_choice inp sl rts c j i)) \<and>
       best_cost b \<le> best_cost b0 \<and>
       (\<forall>j \<in> set js. \<forall>i < length rts. pass_costs inp sl rts j ! i \<noteq> gain_max
          \<longrightarrow> best_cost b \<le> code_score c (pass_costs inp sl rts j) i))"
proof (induction js rule: rev_induct)
  case Nil
  show ?case by simp
next
  case (snoc j js)
  let ?b = "foldl (job_step inp sl rts c) b0 js"
  have ih1: "?b = b0 \<or> (\<exists>j \<in> set js. \<exists>i < length rts. pass_costs inp sl rts j ! i \<noteq> gain_max \<and>
                     ?b = pass_choice inp sl rts c j i)"
    and ih2: "best_cost ?b \<le> best_cost b0"
    and ih3: "\<forall>j \<in> set js. \<forall>i < length rts. pass_costs inp sl rts j ! i \<noteq> gain_max
          \<longrightarrow> best_cost ?b \<le> code_score c (pass_costs inp sl rts j) i"
    using snoc unfolding Let_def by blast+
  let ?b' = "job_step inp sl rts c ?b j"
  have st1: "?b' = ?b \<or> (\<exists>i < length rts. pass_costs inp sl rts j ! i \<noteq> gain_max \<and>
                     ?b' = pass_choice inp sl rts c j i)"
    and st2: "best_cost ?b' \<le> best_cost ?b"
    and st3: "\<forall>i < length rts. pass_costs inp sl rts j ! i \<noteq> gain_max
          \<longrightarrow> best_cost ?b' \<le> code_score c (pass_costs inp sl rts j) i"
    using job_step_props [of inp sl rts c ?b j] unfolding Let_def by blast+
  have fold: "foldl (job_step inp sl rts c) b0 (js @ [j]) = ?b'" by simp
  have a: "?b' = b0 \<or> (\<exists>j' \<in> set (js @ [j]). \<exists>i < length rts.
        pass_costs inp sl rts j' ! i \<noteq> gain_max \<and> ?b' = pass_choice inp sl rts c j' i)"
  proof (cases "?b' = ?b")
    case True
    then show ?thesis using ih1 by (simp only: set_append) blast
  next
    case False
    then show ?thesis using st1 by (simp only: set_append) auto
  qed
  have b: "best_cost ?b' \<le> best_cost b0" using ih2 st2 by simp
  have c: "\<forall>j' \<in> set (js @ [j]). \<forall>i < length rts. pass_costs inp sl rts j' ! i \<noteq> gain_max
          \<longrightarrow> best_cost ?b' \<le> code_score c (pass_costs inp sl rts j') i"
    using ih3 st2 st3 by fastforce
  show ?case unfolding Let_def fold using a b c by blast
qed


lemma best_cost_no_addition [simp]: "best_cost no_addition = double_max"
  by (simp add: no_addition_def)

lemma find_best_addition_choice:
  assumes "best_cost (find_best_addition inp sl rts c) < double_max"
  shows "\<exists>j \<in> set (unassigned sl). \<exists>i < length rts. pass_costs inp sl rts j ! i \<noteq> gain_max \<and>
           find_best_addition inp sl rts c = pass_choice inp sl rts c j i"
proof -
  have "find_best_addition inp sl rts c \<noteq> no_addition" using assms by auto
  then show ?thesis
    using find_best_addition_props [of inp sl rts c no_addition "unassigned sl"]
    unfolding Let_def find_best_addition_def by blast
qed

lemma find_best_addition_minimal:
  assumes "j \<in> set (unassigned sl)" and "i < length rts"
    and "pass_costs inp sl rts j ! i \<noteq> gain_max"
  shows "best_cost (find_best_addition inp sl rts c) \<le> code_score c (pass_costs inp sl rts j) i"
  using find_best_addition_props [of inp sl rts c no_addition "unassigned sl"] assms
  unfolding Let_def find_best_addition_def by blast

lemma find_best_addition_none:
  assumes "\<not> best_cost (find_best_addition inp sl rts c) < double_max"
    and "j \<in> set (unassigned sl)" and "i < length rts"
    and "pass_costs inp sl rts j ! i \<noteq> gain_max"
  shows "double_max \<le> code_score c (pass_costs inp sl rts j) i"
  using find_best_addition_minimal [OF assms(2,3,4), of c] assms(1) by simp

lemma find_best_addition_route:
  "best_cost (find_best_addition inp sl rts c) < double_max
     \<Longrightarrow> best_route (find_best_addition inp sl rts c) \<in> set rts"
  using find_best_addition_choice [of inp sl rts c] by (auto simp: pass_choice_def)

lemma try_job_additions_unfold:
  "try_job_additions inp rts c sl =
     (if best_cost (find_best_addition inp sl rts c) < double_max
      then try_job_additions inp rts c (add_job inp (find_best_addition inp sl rts c) sl)
      else sl)"
  by (subst try_job_additions.simps) (simp add: Let_def)

lemma try_job_additions_preserves:
  fixes P :: "solution \<Rightarrow> bool"
  assumes "\<And>x. P x \<Longrightarrow> best_cost (find_best_addition inp x rts c) < double_max
                    \<Longrightarrow> P (add_job inp (find_best_addition inp x rts c) x)"
    and "P sl"
  shows "P (try_job_additions inp rts c sl)"
  using assms
proof (induction inp rts c sl rule: try_job_additions.induct)
  case (1 inp rts c sl)
  show ?case
  proof (cases "best_cost (find_best_addition inp sl rts c) < double_max")
    case True
    have "P (add_job inp (find_best_addition inp sl rts c) sl)"
      using "1.prems" True by blast
    then have "P (try_job_additions inp rts c (add_job inp (find_best_addition inp sl rts c) sl))"
      using "1.IH" [OF refl refl True] "1.prems"(1) by blast
    then show ?thesis using True by (subst try_job_additions_unfold) simp
  next
    case False
    then show ?thesis using "1.prems" by (subst try_job_additions_unfold) simp
  qed
qed

lemma try_job_additions_exhausts:
  "\<not> best_cost (find_best_addition inp (try_job_additions inp rts c sl) rts c) < double_max"
proof (induction inp rts c sl rule: try_job_additions.induct)
  case (1 inp rts c sl)
  show ?case
  proof (cases "best_cost (find_best_addition inp sl rts c) < double_max")
    case True
    then show ?thesis
      using "1.IH" [OF refl refl True] by (subst try_job_additions_unfold) simp
  next
    case False
    then show ?thesis by (subst try_job_additions_unfold) simp
  qed
qed

lemma routes_add_job:
  "routes (add_job inp best sl)
     = (routes sl)[best_route best := insert_at (best_rank best) (best_job best)
                                       (routes sl ! best_route best)]"
  by (simp add: add_job_def Let_def update_route_cost_def)

lemma route_costs_add_job:
  "length (route_costs (add_job inp best sl)) = length (route_costs sl)"
  by (simp add: add_job_def Let_def update_route_cost_def)

lemma try_job_additions_outside:
  assumes "v \<notin> set rts"
  shows "routes (try_job_additions inp rts c sl) ! v = routes sl ! v"
proof (rule try_job_additions_preserves [where P = "\<lambda>x. routes x ! v = routes sl ! v"])
  fix x :: solution assume x: "routes x ! v = routes sl ! v"
    and added: "best_cost (find_best_addition inp x rts c) < double_max"
  have "best_route (find_best_addition inp x rts c) \<noteq> v"
    using find_best_addition_route [OF added] assms by auto
  then show "routes (add_job inp (find_best_addition inp x rts c) x) ! v = routes sl ! v"
    using x by (simp add: routes_add_job)
qed simp

lemma try_job_additions_unassigned:
  "set (unassigned (try_job_additions inp rts c sl)) \<subseteq> set (unassigned sl)"
  by (rule try_job_additions_preserves [where P = "\<lambda>x. set (unassigned x) \<subseteq> set (unassigned sl)"])
    auto

lemma try_job_additions_length_unassigned:
  "length (unassigned (try_job_additions inp rts c sl)) \<le> length (unassigned sl)"
proof (rule try_job_additions_preserves
    [where P = "\<lambda>x. length (unassigned x) \<le> length (unassigned sl)"])
  fix x :: solution assume "length (unassigned x) \<le> length (unassigned sl)"
  moreover have "length (removeAll j (unassigned x)) \<le> length (unassigned x)" for j
    by (simp add: length_removeAll_less_eq)
  ultimately show "length (unassigned (add_job inp (find_best_addition inp x rts c) x))
      \<le> length (unassigned sl)"
    by (simp del: length_removeAll_less_eq) (meson le_trans)
qed simp

lemma try_job_additions_changes:
  "try_job_additions inp rts c sl = sl \<or>
   length (unassigned (try_job_additions inp rts c sl)) < length (unassigned sl)"
proof (cases "best_cost (find_best_addition inp sl rts c) < double_max")
  case False
  then show ?thesis by (subst try_job_additions_unfold) simp
next
  case True
  let ?sl' = "add_job inp (find_best_addition inp sl rts c) sl"
  have "length (unassigned ?sl') < length (unassigned sl)"
    using find_best_addition_job [OF True] by (simp add: length_removeAll_less)
  moreover have "length (unassigned (try_job_additions inp rts c ?sl')) \<le> length (unassigned ?sl')"
    by (rule try_job_additions_length_unassigned)
  moreover have "try_job_additions inp rts c sl = try_job_additions inp rts c ?sl'"
    using True by (subst try_job_additions_unfold) simp
  ultimately show ?thesis by simp
qed

lemma try_job_additions_route_costs:
  "length (route_costs (try_job_additions inp rts c sl)) = length (route_costs sl)"
  by (rule try_job_additions_preserves
      [where P = "\<lambda>x. length (route_costs x) = length (route_costs sl)"])
    (simp_all add: route_costs_add_job)

section \<open>Facts about the application of a move\<close>

lemma apply_best_Inr:
  assumes "best_ops st ! bs ! bt = Some op"
    and "int (route_costs (update_route_cost inp bt (update_route_cost inp bs
                ((sol st)\<lparr>routes := apply_to op (routes (sol st))\<rparr>))) ! bs
            + route_costs (update_route_cost inp bt (update_route_cost inp bs
                ((sol st)\<lparr>routes := apply_to op (routes (sol st))\<rparr>))) ! bt) + g
         = int (route_costs (sol st) ! bs + route_costs (sol st) ! bt)"
  shows "apply_best inp V g bs bt st
           = Inr (reset_pairs V bs bt (st\<lparr>sol := refresh_after_move inp bs bt op
                (update_route_cost inp bt (update_route_cost inp bs
                   ((sol st)\<lparr>routes := apply_to op (routes (sol st))\<rparr>)))\<rparr>))"
  using assms by (simp add: apply_best_def Let_def)

lemma apply_best_sol:
  assumes "best_ops st ! bs ! bt = Some op" and "apply_best inp V g bs bt st = Inr st'"
  shows "sol st' = refresh_after_move inp bs bt op
                (update_route_cost inp bt (update_route_cost inp bs
                   ((sol st)\<lparr>routes := apply_to op (routes (sol st))\<rparr>)))"
  using assms by (auto simp: apply_best_def Let_def split: if_splits)

lemma set_gains_fields [simp]:
  "routes (set_node_gains inp v sl) = routes sl"
  "routes (set_edge_gains inp v sl) = routes sl"
  "unassigned (set_node_gains inp v sl) = unassigned sl"
  "unassigned (set_edge_gains inp v sl) = unassigned sl"
  "route_costs (set_node_gains inp v sl) = route_costs sl"
  "route_costs (set_edge_gains inp v sl) = route_costs sl"
  by (simp_all add: set_node_gains_def set_edge_gains_def)

lemma update_amounts_fields [simp]:
  "routes (update_amounts inp v sl) = routes sl"
  "unassigned (update_amounts inp v sl) = unassigned sl"
  "route_costs (update_amounts inp v sl) = route_costs sl"
  by (simp_all add: update_amounts_def Let_def)

lemma find_best_addition_empty_list: "find_best_addition inp sl [] c = no_addition"
  by (simp add: find_best_addition_def job_step_def
      foldl_preserves [where P = "\<lambda>b. b = no_addition"])

lemma find_best_addition_no_jobs:
  "unassigned sl = [] \<Longrightarrow> find_best_addition inp sl rts c = no_addition"
  by (simp add: find_best_addition_def)

lemma try_job_additions_empty_list: "try_job_additions inp [] c sl = sl"
  by (subst try_job_additions_unfold) (simp add: find_best_addition_empty_list)

lemma try_job_additions_no_jobs:
  "unassigned sl = [] \<Longrightarrow> try_job_additions inp rts c sl = sl"
  by (subst try_job_additions_unfold) (simp add: find_best_addition_no_jobs)

lemma try_job_additions_last_job:
  assumes "best_cost (find_best_addition inp sl rts c) < double_max"
    and "unassigned sl = [best_job (find_best_addition inp sl rts c)]"
  shows "try_job_additions inp rts c sl = add_job inp (find_best_addition inp sl rts c) sl"
  using assms
  by (subst try_job_additions_unfold) (simp add: try_job_additions_no_jobs)

lemma five_is_a_double: "(5::real) < double_max"
  by (simp add: double_max_def)

lemma demo_first_pass:
  "find_best_addition demo_input (demo_solution [[], []] [5]) [1] 0
     = \<lparr>best_cost = 5, best_job = 5, best_route = 1, best_rank = 0\<rparr>"
  using five_is_a_double
  by (simp add: find_best_addition_def job_step_def eval_step_def two_smallest_def
      smallest_step_def best_addition_def rank_step_def no_addition_def demo_input_def
      demo_solution_def total_amount_def amount_le_def amount_add_def amount_zero_def
      unit_amount_def insert_at_def gain_max_def Let_def recomputed_fwd_def)

section \<open>Facts about the progress of a round\<close>

lemma apply_best_assertion:
  assumes "best_ops st ! bs ! bt = Some op" and "apply_best inp V g bs bt st = Inr st'"
  shows "int (route_costs (update_route_cost inp bt (update_route_cost inp bs
                ((sol st)\<lparr>routes := apply_to op (routes (sol st))\<rparr>))) ! bs
            + route_costs (update_route_cost inp bt (update_route_cost inp bs
                ((sol st)\<lparr>routes := apply_to op (routes (sol st))\<rparr>))) ! bt) + g
         = int (route_costs (sol st) ! bs + route_costs (sol st) ! bt)"
  using assms by (auto simp: apply_best_def Let_def split: if_splits)

lemma apply_best_has_op:
  "apply_best inp V g bs bt st = Inr st' \<Longrightarrow> \<exists>op. best_ops st ! bs ! bt = Some op"
  by (auto simp: apply_best_def split: option.splits)

lemma route_costs_moved:
  "route_costs (update_route_cost inp bt (update_route_cost inp bs (sl\<lparr>routes := rs\<rparr>)))
     = (route_costs sl)[bs := route_cost_for_vehicle inp bs (rs ! bs),
                        bt := route_cost_for_vehicle inp bt (rs ! bt)]"
  by (simp add: update_route_cost_def)

lemma unassigned_moved [simp]:
  "unassigned (update_route_cost inp v sl) = unassigned sl"
  by (simp add: update_route_cost_def)

lemma sum_list_update_nat:
  fixes xs :: "nat list"
  assumes "k < length xs"
  shows "sum_list (xs[k := x]) + xs ! k = sum_list xs + x"
proof -
  have "xs ! k \<le> sum_list xs" using assms by (simp add: member_le_sum_list)
  then show ?thesis using assms by (simp add: sum_list_update)
qed

lemma sum_list_two_updates:
  fixes rc :: "nat list"
  assumes "bs \<noteq> bt" and "bs < length rc" and "bt < length rc"
    and "int (rc[bs := a, bt := b] ! bs + rc[bs := a, bt := b] ! bt) + g = int (rc ! bs + rc ! bt)"
    and "g > 0"
  shows "sum_list (rc[bs := a, bt := b]) < sum_list rc"
proof -
  have ab: "a + b < rc ! bs + rc ! bt"
    using assms by simp
  have 1: "sum_list (rc[bs := a]) + rc ! bs = sum_list rc + a"
    using assms(2) by (rule sum_list_update_nat)
  have 2: "sum_list (rc[bs := a, bt := b]) + rc[bs := a] ! bt = sum_list (rc[bs := a]) + b"
    using assms(3) by (intro sum_list_update_nat) simp
  have "rc[bs := a] ! bt = rc ! bt" using assms(1) by simp
  with 1 2 ab show ?thesis by linarith
qed

lemma move_decreases_cost:
  assumes op: "best_ops st ! bs ! bt = Some op" and ok: "apply_best inp V g bs bt st = Inr st'"
    and g: "g > 0" and ne: "bs \<noteq> bt"
    and bs: "bs < length (route_costs (sol st))" and bt: "bt < length (route_costs (sol st))"
  shows "sum_list (route_costs (update_route_cost inp bt (update_route_cost inp bs
                ((sol st)\<lparr>routes := apply_to op (routes (sol st))\<rparr>))))
           < sum_list (route_costs (sol st))"
  using sum_list_two_updates [OF ne bs bt _ g] apply_best_assertion [OF op ok]
  unfolding route_costs_moved by simp

lemma straighten_route_costs:
  "sum_list (route_costs (straighten_route inp v sl)) \<le> sum_list (route_costs sl) \<and>
   length (route_costs (straighten_route inp v sl)) = length (route_costs sl) \<and>
   unassigned (straighten_route inp v sl) = unassigned sl"
proof (cases "v < length (route_costs sl)")
  case False
  then show ?thesis by (simp add: straighten_route_def Let_def list_update_beyond)
next
  case True
  have "sum_list ((route_costs sl)[v := c]) \<le> sum_list (route_costs sl)"
    if "c < route_costs sl ! v" for c
  proof -
    have "sum_list ((route_costs sl)[v := c]) + route_costs sl ! v = sum_list (route_costs sl) + c"
      using True by (rule sum_list_update_nat)
    with that show ?thesis by linarith
  qed
  then show ?thesis by (simp add: straighten_route_def Let_def)
qed

lemma refresh_after_move_measure:
  "(length (unassigned (refresh_after_move inp bs bt op sl)) < length (unassigned sl) \<or>
    length (unassigned (refresh_after_move inp bs bt op sl)) = length (unassigned sl) \<and>
    sum_list (route_costs (refresh_after_move inp bs bt op sl)) \<le> sum_list (route_costs sl)) \<and>
   length (route_costs (refresh_after_move inp bs bt op sl)) = length (route_costs sl)"
proof -
  let ?s1 = "straighten_route inp bt (straighten_route inp bs sl)"
  let ?s2 = "update_amounts inp bt (update_amounts inp bs ?s1)"
  let ?s3 = "try_job_additions inp (addition_candidates op) 0 ?s2"
  have s1: "sum_list (route_costs ?s1) \<le> sum_list (route_costs sl)"
      "length (route_costs ?s1) = length (route_costs sl)" "unassigned ?s1 = unassigned sl"
    using straighten_route_costs [of inp bs sl]
      straighten_route_costs [of inp bt "straighten_route inp bs sl"] by simp_all
  have s2: "route_costs ?s2 = route_costs ?s1" "unassigned ?s2 = unassigned ?s1" by simp_all
  have res: "route_costs (refresh_after_move inp bs bt op sl) = route_costs ?s3"
      "unassigned (refresh_after_move inp bs bt op sl) = unassigned ?s3"
    by (simp_all add: refresh_after_move_def Let_def)
  have len: "length (route_costs ?s3) = length (route_costs sl)"
    using try_job_additions_route_costs [of inp "addition_candidates op" 0 ?s2] s1(2) s2(1) by simp
  from try_job_additions_changes [of inp "addition_candidates op" 0 ?s2]
  show ?thesis
  proof
    assume "?s3 = ?s2"
    then show ?thesis unfolding res using s1 s2 len by simp
  next
    assume "length (unassigned ?s3) < length (unassigned ?s2)"
    then show ?thesis unfolding res using s1 s2 len by simp
  qed
qed


lemma run_round_selected:
  assumes "run_round inp mk V st = Inr (g, st')" and "g > 0"
  shows "\<exists>bs bt. select_best V (best_gains (evaluate_all inp mk st)) = (g, bs, bt) \<and>
           apply_best inp V g bs bt (evaluate_all inp mk st) = Inr st'"
proof -
  obtain g1 bs bt where sel: "select_best V (best_gains (evaluate_all inp mk st)) = (g1, bs, bt)"
    by (cases "select_best V (best_gains (evaluate_all inp mk st))") auto
  have "g1 = g" using assms sel by (auto simp: run_round_def Let_def split: if_splits sum.splits)
  then show ?thesis
    using assms sel by (auto simp: run_round_def Let_def split: if_splits sum.splits)
qed

lemma run_round_decreases:
  assumes rr: "run_round inp mk V st = Inr (g, st')" and g: "g > 0"
    and len: "length (route_costs (sol st)) = V"
  shows "(search_measure st', search_measure st) \<in> less_than <*lex*> less_than"
    and "length (route_costs (sol st')) = V"
proof -
  let ?st1 = "evaluate_all inp mk st"
  obtain bs bt where sel: "select_best V (best_gains ?st1) = (g, bs, bt)"
    and ok: "apply_best inp V g bs bt ?st1 = Inr st'"
    using run_round_selected [OF rr g] by blast
  obtain op where op: "best_ops ?st1 ! bs ! bt = Some op"
    using apply_best_has_op [OF ok] by blast
  have idx: "bs \<noteq> bt" "bs < V" "bt < V" using select_best_props(2) [OF sel g] by simp_all
  let ?moved = "update_route_cost inp bt (update_route_cost inp bs
                ((sol ?st1)\<lparr>routes := apply_to op (routes (sol ?st1))\<rparr>))"
  have dec: "sum_list (route_costs ?moved) < sum_list (route_costs (sol st))"
    using move_decreases_cost [OF op ok g idx(1)] idx(2,3) len by simp
  have lenm: "length (route_costs ?moved) = V" using len by (simp add: route_costs_moved)
  have una: "unassigned ?moved = unassigned (sol st)" by simp
  have sol': "sol st' = refresh_after_move inp bs bt op ?moved"
    by (rule apply_best_sol [OF op ok])
  from refresh_after_move_measure [of inp bs bt op ?moved]
  show "(search_measure st', search_measure st) \<in> less_than <*lex*> less_than"
    unfolding search_measure_def sol' using dec una by auto
  from refresh_after_move_measure [of inp bs bt op ?moved]
  show "length (route_costs (sol st')) = V" unfolding sol' using lenm by simp
qed

lemma run_loop_terminates:
  "length (route_costs (sol st)) = V \<Longrightarrow> \<exists>result. run_loop inp mk V st = Some result"
proof (induction st rule: wf_induct_rule
    [OF wf_inv_image [OF wf_lex_prod [OF wf_less_than wf_less_than], of search_measure]])
  case (1 st)
  show ?case
  proof (cases "run_round inp mk V st")
    case (Inl e)
    then show ?thesis by (subst run_loop.simps) simp
  next
    case (Inr p)
    obtain g st' where p: "p = (g, st')" by (cases p)
    show ?thesis
    proof (cases "g > 0")
      case True
      have "(st', st) \<in> inv_image (less_than <*lex*> less_than) search_measure"
        using run_round_decreases(1) [OF Inr [unfolded p] True "1.prems"] by simp
      moreover have "length (route_costs (sol st')) = V"
        by (rule run_round_decreases(2) [OF Inr [unfolded p] True "1.prems"])
      ultimately obtain result where "run_loop inp mk V st' = Some result"
        using "1.IH" by blast
      then show ?thesis using Inr p True by (subst run_loop.simps) simp
    next
      case False
      then show ?thesis using Inr p by (subst run_loop.simps) simp
    qed
  qed
qed

lemma run_round_exit:
  assumes "run_round inp mk V st = Inr (g, st')"
  shows "g \<le> 0 \<longleftrightarrow> (\<forall>s < V. \<forall>t < V. s \<noteq> t \<longrightarrow> best_gains (evaluate_all inp mk st) ! s ! t \<le> 0)"
proof -
  obtain g1 bs bt where sel: "select_best V (best_gains (evaluate_all inp mk st)) = (g1, bs, bt)"
    by (cases "select_best V (best_gains (evaluate_all inp mk st))") auto
  have "g1 = g" using assms sel by (auto simp: run_round_def Let_def split: if_splits sum.splits)
  with sel have sel': "select_best V (best_gains (evaluate_all inp mk st)) = (g, bs, bt)" by simp
  show ?thesis
  proof
    assume "g \<le> 0"
    then show "\<forall>s < V. \<forall>t < V. s \<noteq> t \<longrightarrow> best_gains (evaluate_all inp mk st) ! s ! t \<le> 0"
      using select_best_props(3) [OF sel'] by fastforce
  next
    assume all: "\<forall>s < V. \<forall>t < V. s \<noteq> t \<longrightarrow> best_gains (evaluate_all inp mk st) ! s ! t \<le> 0"
    show "g \<le> 0"
    proof (rule ccontr)
      assume "\<not> g \<le> 0"
      then have "g > 0" by simp
      from select_best_props(2) [OF sel' this]
      have "bs \<noteq> bt" "bs < V" "bt < V" "best_gains (evaluate_all inp mk st) ! bs ! bt = g"
        by simp_all
      with all \<open>g > 0\<close> show False by (metis not_le)
    qed
  qed
qed

section \<open>The pass of the code and the pass of the design\<close>

subsection \<open>The scan of the ranks\<close>

lemma Min_snoc:
  "Min (set (g # xs @ [x])) = min x (Min (set (g # xs)))"
proof -
  have "set (g # xs @ [x]) = insert x (set (g # xs))" by auto
  moreover have "Min (insert x (set (g # xs))) = min x (Min (set (g # xs)))"
    by (rule Min_insert) simp_all
  ultimately show ?thesis by (simp only:)
qed

lemma rank_scan:
  fixes valid :: "nat \<Rightarrow> bool" and cost :: "nat \<Rightarrow> gain_t"
  assumes valid: "\<And>r. valid r = is_valid_addition_for_tw inp v route j r"
    and cost: "\<And>r. cost r = addition_cost inp j v route r"
  shows "(let acc = foldl (rank_step inp v route j) (gain_max, 0) [0..<k]
          in fst acc = Min (set (gain_max # map cost (filter valid [0..<k]))) \<and>
             (fst acc < gain_max \<longrightarrow> snd acc < k \<and> valid (snd acc) \<and> cost (snd acc) = fst acc))"
proof (induction k)
  case 0
  show ?case by simp
next
  case (Suc k)
  let ?acc = "foldl (rank_step inp v route j) (gain_max, 0) [0..<k]"
  have ih1: "fst ?acc = Min (set (gain_max # map cost (filter valid [0..<k])))"
    and ih2: "fst ?acc < gain_max \<longrightarrow> snd ?acc < k \<and> valid (snd ?acc) \<and> cost (snd ?acc) = fst ?acc"
    using Suc unfolding Let_def by blast+
  have fold: "foldl (rank_step inp v route j) (gain_max, 0) [0..<Suc k]
      = rank_step inp v route j ?acc k" by simp
  show ?case
  proof (cases "valid k")
    case False
    then have "rank_step inp v route j ?acc k = ?acc" by (simp add: rank_step_def valid)
    then show ?thesis unfolding Let_def fold using ih1 ih2 False by (auto simp: less_Suc_eq)
  next
    case True
    have m: "Min (set (gain_max # map cost (filter valid [0..<Suc k])))
        = min (cost k) (fst ?acc)"
      using True Min_snoc [of gain_max "map cost (filter valid [0..<k])" "cost k"] ih1 by simp
    show ?thesis
    proof (cases "cost k < fst ?acc")
      case c: True
      then have "rank_step inp v route j ?acc k = (cost k, k)"
        using True by (simp add: rank_step_def valid cost Let_def)
      then show ?thesis unfolding Let_def fold m using c True by simp
    next
      case c: False
      then have "rank_step inp v route j ?acc k = ?acc"
        using True by (simp add: rank_step_def valid cost Let_def)
      then show ?thesis unfolding Let_def fold m using c ih2 by (auto simp: less_Suc_eq)
    qed
  qed
qed

lemma best_addition_spec:
  "fst (best_addition inp sl j v) = spec_best_cost inp sl j v"
  "fst (best_addition inp sl j v) < gain_max \<Longrightarrow>
     vehicle_compatible inp sl j v (snd (best_addition inp sl j v)) \<and>
     addition_cost inp j v (routes sl ! v) (snd (best_addition inp sl j v))
       = spec_best_cost inp sl j v"
proof -
  let ?route = "routes sl ! v"
  let ?ok = "vehicle_ok_with_job inp v j \<and>
     amount_le (amount_add (total_amount (amount_size inp) (fwd_amounts sl ! v)) (job_amount inp j))
       (capacity inp v)"
  let ?valid = "\<lambda>r. is_valid_addition_for_tw inp v ?route j r"
  let ?cost = "\<lambda>r. addition_cost inp j v ?route r"
  let ?acc = "foldl (rank_step inp v ?route j) (gain_max, 0) [0..<length ?route + 1]"
  have scan: "fst ?acc = Min (set (gain_max # map ?cost (filter ?valid [0..<length ?route + 1])))"
    "fst ?acc < gain_max \<longrightarrow> snd ?acc < length ?route + 1 \<and> ?valid (snd ?acc) \<and>
        ?cost (snd ?acc) = fst ?acc"
    using rank_scan [of ?valid inp v ?route j ?cost "length ?route + 1"]
    unfolding Let_def by blast+
  have filt: "?ok \<Longrightarrow> filter (vehicle_compatible inp sl j v) [0..<length ?route + 1]
      = filter ?valid [0..<length ?route + 1]"
    by (rule filter_cong) (auto simp: vehicle_compatible_def)
  have nofilt: "\<not> ?ok \<Longrightarrow> filter (vehicle_compatible inp sl j v) [0..<length ?route + 1] = []"
    by (auto simp: filter_empty_conv vehicle_compatible_def)
  show 1: "fst (best_addition inp sl j v) = spec_best_cost inp sl j v"
  proof (cases ?ok)
    case True
    then have "best_addition inp sl j v = ?acc" by (simp add: best_addition_def Let_def)
    then show ?thesis using scan(1) filt [OF True] by (simp add: spec_best_cost_def)
  next
    case False
    then have "best_addition inp sl j v = (gain_max, 0)"
      by (auto simp: best_addition_def Let_def)
    then show ?thesis using nofilt [OF False] by (simp add: spec_best_cost_def)
  qed
  assume fin: "fst (best_addition inp sl j v) < gain_max"
  have ok: ?ok
  proof (rule ccontr)
    assume "\<not> ?ok"
    then have "best_addition inp sl j v = (gain_max, 0)"
      by (auto simp: best_addition_def Let_def)
    with fin show False by simp
  qed
  then have eq: "best_addition inp sl j v = ?acc" by (simp add: best_addition_def Let_def)
  have "snd ?acc \<le> length ?route \<and> ?valid (snd ?acc) \<and> ?cost (snd ?acc) = fst ?acc"
    using scan(2) fin eq by simp
  then show "vehicle_compatible inp sl j v (snd (best_addition inp sl j v)) \<and>
     addition_cost inp j v (routes sl ! v) (snd (best_addition inp sl j v))
       = spec_best_cost inp sl j v"
    using ok 1 eq by (simp add: vehicle_compatible_def)
qed

lemma spec_best_cost_le: "spec_best_cost inp sl j v \<le> gain_max"
  by (simp add: spec_best_cost_def)

lemma pass_costs_spec: "pass_costs inp sl rts j = spec_costs inp sl rts j"
  by (simp add: pass_costs_def spec_costs_def best_addition_spec(1))


subsection \<open>The two smallest costs\<close>

lemma spec_smallest_snoc: "spec_smallest (xs @ [x]) = min x (spec_smallest xs)"
  unfolding spec_smallest_def using Min_snoc [of gain_max xs x] by simp

lemma spec_smallest_le: "y \<in> set xs \<Longrightarrow> spec_smallest xs \<le> y"
  by (simp add: spec_smallest_def)

lemma spec_smallest_le_max: "spec_smallest xs \<le> gain_max"
  by (simp add: spec_smallest_def)

lemma spec_smallest_in: "spec_smallest xs \<in> set xs \<or> spec_smallest xs = gain_max"
proof -
  have "Min (set (gain_max # xs)) \<in> set (gain_max # xs)" by (rule Min_in) simp_all
  then show ?thesis by (auto simp: spec_smallest_def)
qed

lemma spec_second_le_max: "spec_second_smallest xs \<le> gain_max"
  by (simp add: spec_second_smallest_def)

lemma two_smallest_step:
  fixes xs :: "gain_t list"
  assumes sm: "sm = spec_smallest xs" and sec: "sec = spec_second_smallest xs"
    and idx: "sm < gain_max \<longrightarrow> idx = spec_argmin xs"
  shows "(if x < sm then x else sm) = spec_smallest (xs @ [x])"
    and "(if x < sm then sm else if x < sec then x else sec) = spec_second_smallest (xs @ [x])"
    and "(if x < sm then x else sm) < gain_max \<longrightarrow>
           (if x < sm then length xs else idx) = spec_argmin (xs @ [x])"
proof -
  show 1: "(if x < sm then x else sm) = spec_smallest (xs @ [x])"
    by (simp add: spec_smallest_snoc sm min_def)
  consider (A) "x < sm" | (B) "\<not> x < sm" "sm \<in> set xs" | (C) "\<not> x < sm" "sm \<notin> set xs"
    by blast
  then have "(if x < sm then sm else if x < sec then x else sec) = spec_second_smallest (xs @ [x]) \<and>
      ((if x < sm then x else sm) < gain_max \<longrightarrow>
           (if x < sm then length xs else idx) = spec_argmin (xs @ [x]))"
  proof cases
    case A
    then have new: "spec_smallest (xs @ [x]) = x" using 1 by simp
    have notin: "x \<notin> set xs" using A spec_smallest_le [of x xs] sm by auto
    then have "remove1 x (xs @ [x]) = xs" by (simp add: remove1_append)
    then have s2: "spec_second_smallest (xs @ [x]) = sm"
      unfolding spec_second_smallest_def new by (simp add: sm spec_smallest_def)
    have "takeWhile (\<lambda>y. y \<noteq> x) (xs @ [x]) = xs @ takeWhile (\<lambda>y. y \<noteq> x) [x]"
      by (rule takeWhile_append2) (use notin in auto)
    then have "takeWhile (\<lambda>y. y \<noteq> x) (xs @ [x]) = xs" by simp
    then have "spec_argmin (xs @ [x]) = length xs" by (simp add: spec_argmin_def new)
    with s2 A show ?thesis by simp
  next
    case B
    then have new: "spec_smallest (xs @ [x]) = sm" using 1 by simp
    have "remove1 sm (xs @ [x]) = remove1 sm xs @ [x]" using B(2) by (simp add: remove1_append)
    then have "spec_second_smallest (xs @ [x]) = min x sec"
      unfolding spec_second_smallest_def new sec sm [symmetric]
      using Min_snoc [of gain_max "remove1 sm xs" x] by simp
    then have s2: "(if x < sec then x else sec) = spec_second_smallest (xs @ [x])"
      by (simp add: min_def)
    have "takeWhile (\<lambda>y. y \<noteq> sm) (xs @ [x]) = takeWhile (\<lambda>y. y \<noteq> sm) xs"
      using B(2) by (simp add: takeWhile_append1)
    then have "spec_argmin (xs @ [x]) = spec_argmin xs"
      by (simp add: spec_argmin_def new sm [symmetric])
    with s2 B idx show ?thesis by simp
  next
    case C
    then have smax: "sm = gain_max" using spec_smallest_in [of xs] sm by auto
    have new: "spec_smallest (xs @ [x]) = gain_max" using 1 C smax by simp
    have "remove1 gain_max xs = xs" using C(2) smax by (simp add: remove1_idem)
    then have secmax: "sec = gain_max"
      using sec sm smax by (simp add: spec_second_smallest_def spec_smallest_def)
    have xge: "gain_max \<le> x" using C(1) smax by simp
    have rm: "remove1 gain_max (xs @ [x]) = xs @ remove1 gain_max [x]"
      using C(2) smax by (simp add: remove1_append)
    have "spec_second_smallest (xs @ [x]) = gain_max"
    proof (cases "x = gain_max")
      case True
      then show ?thesis
        unfolding spec_second_smallest_def new rm using sm smax by (simp add: spec_smallest_def)
    next
      case False
      then have "spec_second_smallest (xs @ [x]) = min x (spec_smallest xs)"
        unfolding spec_second_smallest_def new rm using Min_snoc [of gain_max xs x]
        by (simp add: spec_smallest_def)
      then show ?thesis using xge sm smax by (simp add: min_def)
    qed
    then show ?thesis using C(1) smax secmax xge by simp
  qed
  then show "(if x < sm then sm else if x < sec then x else sec) = spec_second_smallest (xs @ [x])"
    and "(if x < sm then x else sm) < gain_max \<longrightarrow>
           (if x < sm then length xs else idx) = spec_argmin (xs @ [x])"
    by blast+
qed

lemma two_smallest_scan:
  "k \<le> length cs \<Longrightarrow>
   (case foldl (smallest_step cs) (gain_max, gain_max, nat gain_max) [0..<k] of
      (sm, sec, idx) \<Rightarrow>
        sm = spec_smallest (take k cs) \<and> sec = spec_second_smallest (take k cs) \<and>
        (sm < gain_max \<longrightarrow> idx = spec_argmin (take k cs)))"
proof (induction k)
  case 0
  show ?case by (simp add: spec_smallest_def spec_second_smallest_def)
next
  case (Suc k)
  obtain sm sec idx where acc:
    "foldl (smallest_step cs) (gain_max, gain_max, nat gain_max) [0..<k] = (sm, sec, idx)"
    by (cases "foldl (smallest_step cs) (gain_max, gain_max, nat gain_max) [0..<k]") auto
  have ih: "sm = spec_smallest (take k cs)" "sec = spec_second_smallest (take k cs)"
    "sm < gain_max \<longrightarrow> idx = spec_argmin (take k cs)"
    using Suc acc by simp_all
  have tk: "take (Suc k) cs = take k cs @ [cs ! k]"
    using Suc.prems by (simp add: take_Suc_conv_app_nth)
  have lk: "length (take k cs) = k" using Suc.prems by simp
  have step: "foldl (smallest_step cs) (gain_max, gain_max, nat gain_max) [0..<Suc k]
      = (if cs ! k < sm then (cs ! k, sm, k)
         else if cs ! k < sec then (sm, cs ! k, idx) else (sm, sec, idx))"
    by (simp add: acc smallest_step_def)
  from two_smallest_step [OF ih, of "cs ! k"]
  show ?case unfolding step tk lk by (auto split: if_splits)
qed

lemma two_smallest_spec:
  "\<exists>idx. two_smallest cs = (spec_smallest cs, spec_second_smallest cs, idx) \<and>
         (spec_smallest cs < gain_max \<longrightarrow> idx = spec_argmin cs)"
  using two_smallest_scan [of "length cs" cs]
  by (cases "two_smallest cs") (auto simp: two_smallest_def)

lemma code_score_spec:
  assumes "i < length cs" and "cs ! i \<noteq> gain_max" and "\<forall>x \<in> set cs. x \<le> gain_max"
  shows "code_score c cs i = spec_score c cs i"
proof -
  have "cs ! i < gain_max" using assms by (metis nth_mem order_le_imp_less_or_eq)
  moreover have "spec_smallest cs \<le> cs ! i" using assms(1) by (simp add: spec_smallest_le)
  ultimately have fin: "spec_smallest cs < gain_max" by simp
  obtain idx where "two_smallest cs = (spec_smallest cs, spec_second_smallest cs, idx)"
    and "idx = spec_argmin cs"
    using two_smallest_spec [of cs] fin by blast
  then show ?thesis by (simp add: code_score_def spec_score_def)
qed

subsection \<open>The choice of a pass\<close>

lemma spec_costs_nth:
  "i < length rts \<Longrightarrow> spec_costs inp sl rts j ! i = spec_best_cost inp sl j (rts ! i)"
  by (simp add: spec_costs_def)

lemma pass_score_spec:
  assumes "i < length rts" and "spec_best_cost inp sl j (rts ! i) \<noteq> gain_max"
  shows "code_score c (pass_costs inp sl rts j) i = spec_score c (spec_costs inp sl rts j) i"
proof -
  have "\<forall>x \<in> set (spec_costs inp sl rts j). x \<le> gain_max"
    by (auto simp: spec_costs_def spec_best_cost_le)
  then show ?thesis
    unfolding pass_costs_spec
    using code_score_spec [of i "spec_costs inp sl rts j" c] assms
    by (simp add: spec_costs_def)
qed

lemma gain_max_is_a_double: "real_of_int gain_max < double_max"
  by (simp add: gain_max_def double_max_def)

lemma spec_score_zero:
  assumes "i < length rts"
  shows "spec_score 0 (spec_costs inp sl rts j) i < double_max"
proof -
  have "spec_costs inp sl rts j ! i \<le> gain_max"
    using assms by (simp add: spec_costs_nth spec_best_cost_le)
  then have "real_of_int (spec_costs inp sl rts j ! i) \<le> real_of_int gain_max" by simp
  then show ?thesis using gain_max_is_a_double by (simp add: spec_score_def)
qed

lemma pass_selects_minimum:
  assumes added: "best_cost (find_best_addition inp sl rts c) < double_max"
  shows "\<exists>i < length rts.
           best_route (find_best_addition inp sl rts c) = rts ! i \<and>
           best_job (find_best_addition inp sl rts c) \<in> set (unassigned sl) \<and>
           vehicle_compatible inp sl (best_job (find_best_addition inp sl rts c)) (rts ! i)
             (best_rank (find_best_addition inp sl rts c)) \<and>
           addition_cost inp (best_job (find_best_addition inp sl rts c)) (rts ! i)
               (routes sl ! (rts ! i)) (best_rank (find_best_addition inp sl rts c))
             = spec_best_cost inp sl (best_job (find_best_addition inp sl rts c)) (rts ! i) \<and>
           spec_best_cost inp sl (best_job (find_best_addition inp sl rts c)) (rts ! i) < gain_max \<and>
           best_cost (find_best_addition inp sl rts c)
             = spec_score c (spec_costs inp sl rts (best_job (find_best_addition inp sl rts c))) i"
proof -
  obtain j i where j: "j \<in> set (unassigned sl)" and i: "i < length rts"
    and fin: "pass_costs inp sl rts j ! i \<noteq> gain_max"
    and eq: "find_best_addition inp sl rts c = pass_choice inp sl rts c j i"
    using find_best_addition_choice [OF added] by blast
  have cost: "pass_costs inp sl rts j ! i = spec_best_cost inp sl j (rts ! i)"
    using i by (simp add: pass_costs_spec spec_costs_nth)
  have fin': "spec_best_cost inp sl j (rts ! i) \<noteq> gain_max" using fin cost by simp
  then have lt: "fst (best_addition inp sl j (rts ! i)) < gain_max"
    using spec_best_cost_le [of inp sl j "rts ! i"] by (simp add: best_addition_spec(1))
  note rank = best_addition_spec(2) [OF lt]
  have score: "code_score c (pass_costs inp sl rts j) i = spec_score c (spec_costs inp sl rts j) i"
    by (rule pass_score_spec [OF i fin'])
  show ?thesis
    unfolding eq
    using i j rank lt score
    by (intro exI [of _ i]) (simp add: pass_choice_def best_addition_spec(1))
qed

lemma pass_minimal:
  assumes "j \<in> set (unassigned sl)" and "i < length rts"
    and "spec_best_cost inp sl j (rts ! i) \<noteq> gain_max"
  shows "best_cost (find_best_addition inp sl rts c) \<le> spec_score c (spec_costs inp sl rts j) i"
proof -
  have fin: "pass_costs inp sl rts j ! i \<noteq> gain_max"
    using assms(2,3) by (simp add: pass_costs_spec spec_costs_nth)
  show ?thesis
    using find_best_addition_minimal [OF assms(1,2) fin, of c] pass_score_spec [OF assms(2,3), of c]
    by simp
qed

lemma pass_none:
  assumes "\<not> best_cost (find_best_addition inp sl rts c) < double_max"
    and "j \<in> set (unassigned sl)" and "i < length rts"
  shows "spec_best_cost inp sl j (rts ! i) = gain_max \<or>
         double_max \<le> spec_score c (spec_costs inp sl rts j) i"
  using pass_minimal [OF assms(2,3), of inp c] assms(1) by fastforce

lemma no_finite_choice_no_insertion:
  assumes "\<forall>j \<in> set (unassigned sl). \<forall>i < length rts. spec_best_cost inp sl j (rts ! i) = gain_max"
  shows "\<not> best_cost (find_best_addition inp sl rts c) < double_max"
proof
  assume "best_cost (find_best_addition inp sl rts c) < double_max"
  from pass_selects_minimum [OF this] assms show False by fastforce
qed

section \<open>Facts about the accounting of gains\<close>

subsection \<open>Stored moves stay accurate while moves are evaluated\<close>

lemma keep_if_better_sol [simp]: "sol (keep_if_better r s t st) = sol st"
  by (simp add: keep_if_better_def)

lemma operator_contractD:
  assumes "operator_contract inp mk" and "is_valid (mk kind sl s s_rank t t_rank)" and "s \<noteq> t"
    and "s < length (routes sl)" and "t < length (routes sl)" and "length rs = length (routes sl)"
    and "rs ! s = routes sl ! s" and "rs ! t = routes sl ! t"
  shows "accurate_move inp rs s t (mk kind sl s s_rank t t_rank)"
proof -
  from assms(1) have "is_valid (mk kind sl s s_rank t t_rank) \<and> s \<noteq> t \<and>
        s < length (routes sl) \<and> t < length (routes sl) \<and> length rs = length (routes sl) \<and>
        rs ! s = routes sl ! s \<and> rs ! t = routes sl ! t
        \<longrightarrow> accurate_move inp rs s t (mk kind sl s s_rank t t_rank)"
    unfolding operator_contract_def by (elim allE)
  with assms(2-) show ?thesis by simp
qed

lemma evaluate_accurate:
  assumes contract: "operator_contract inp mk" and inv: "stored_moves_accurate inp V st"
  shows "stored_moves_accurate inp V (evaluate mk kind st m)"
proof -
  obtain s s_rank t t_rank where m: "m = (s, s_rank, t, t_rank)" by (cases m) auto
  let ?r = "mk kind (sol st) s s_rank t t_rank"
  have sqg: "square V (best_gains st)" and sqo: "square V (best_ops st)"
    and coh: "costs_coherent inp V (sol st)"
    using inv by (simp_all add: stored_moves_accurate_def)
  have len: "length (routes (sol st)) = V" using coh by (simp add: costs_coherent_def)
  show ?thesis
  proof (cases "is_valid ?r \<and> gain ?r > best_gains st ! s ! t")
    case False
    then have "evaluate mk kind st m = st" by (auto simp: m evaluate_def keep_if_better_def)
    then show ?thesis using inv by simp
  next
    case True
    let ?st' = "st\<lparr>best_gains := set2 (best_gains st) s t (gain ?r),
                   best_ops := set2 (best_ops st) s t (Some ?r)\<rparr>"
    have ev: "evaluate mk kind st m = ?st'"
      using True by (simp add: m evaluate_def keep_if_better_def)
    have entry: "\<exists>mv. best_ops ?st' ! s' ! t' = Some mv \<and> gain mv = best_gains ?st' ! s' ! t' \<and>
           (\<forall>rs. length rs = V \<and> rs ! s' = routes (sol ?st') ! s' \<and> rs ! t' = routes (sol ?st') ! t'
              \<longrightarrow> accurate_move inp rs s' t' mv)"
      if s': "s' < V" and t': "t' < V" and ne: "s' \<noteq> t'" and pos: "best_gains ?st' ! s' ! t' > 0"
      for s' t'
    proof (cases "s' = s \<and> t' = t")
      case same: True
      have "accurate_move inp rs s t ?r"
        if "length rs = V" "rs ! s = routes (sol st) ! s" "rs ! t = routes (sol st) ! t" for rs
        using operator_contractD [OF contract, of kind "sol st" s s_rank t t_rank rs]
          True that same s' t' ne len by simp
      then show ?thesis
        using same s' t' by (simp add: nth_set2 [OF sqg] nth_set2 [OF sqo])
    next
      case other: False
      then have "best_gains st ! s' ! t' > 0"
        using pos s' t' by (auto simp: nth_set2 [OF sqg])
      then show ?thesis
        using inv s' t' ne other unfolding stored_moves_accurate_def
        by (auto simp: nth_set2 [OF sqg] nth_set2 [OF sqo])
    qed
    show ?thesis
      unfolding ev stored_moves_accurate_def
      using entry square_set2 [OF sqg] square_set2 [OF sqo] coh by simp
  qed
qed

lemma evaluate_all_accurate:
  assumes "operator_contract inp mk" and "stored_moves_accurate inp V st"
  shows "stored_moves_accurate inp V (evaluate_all inp mk st)"
  using evaluate_all_steps [of "stored_moves_accurate inp V" mk st inp]
    evaluate_accurate [OF assms(1)] assms(2) by blast

lemma moved_accurate:
  assumes coh: "costs_coherent inp V sl" and ne: "bs \<noteq> bt" and bs: "bs < V" and bt: "bt < V"
    and acc: "accurate_move inp (routes sl) bs bt mv"
  shows "int (route_costs (update_route_cost inp bt (update_route_cost inp bs
                (sl\<lparr>routes := apply_to mv (routes sl)\<rparr>))) ! bs
            + route_costs (update_route_cost inp bt (update_route_cost inp bs
                (sl\<lparr>routes := apply_to mv (routes sl)\<rparr>))) ! bt) + gain mv
         = int (route_costs sl ! bs + route_costs sl ! bt)"
    and "costs_coherent inp V (update_route_cost inp bt (update_route_cost inp bs
                (sl\<lparr>routes := apply_to mv (routes sl)\<rparr>)))"
    and "\<And>v. v \<noteq> bs \<Longrightarrow> v \<noteq> bt \<Longrightarrow>
           routes (update_route_cost inp bt (update_route_cost inp bs
                (sl\<lparr>routes := apply_to mv (routes sl)\<rparr>))) ! v = routes sl ! v"
proof -
  let ?rs = "apply_to mv (routes sl)"
  let ?moved = "update_route_cost inp bt (update_route_cost inp bs (sl\<lparr>routes := ?rs\<rparr>))"
  have lens: "length (routes sl) = V" "length (route_costs sl) = V"
    and old: "\<And>v. v < V \<Longrightarrow> route_costs sl ! v = cost_of inp (routes sl) v"
    using coh by (simp_all add: costs_coherent_def)
  have lrs: "length ?rs = V" and frame: "\<And>v. v \<noteq> bs \<Longrightarrow> v \<noteq> bt \<Longrightarrow> ?rs ! v = routes sl ! v"
    and g: "gain mv = int (cost_of inp (routes sl) bs) + int (cost_of inp (routes sl) bt)
               - int (cost_of inp ?rs bs) - int (cost_of inp ?rs bt)"
    using acc lens by (simp_all add: accurate_move_def)
  have rc: "route_costs ?moved = (route_costs sl)[bs := cost_of inp ?rs bs, bt := cost_of inp ?rs bt]"
    by (simp add: route_costs_moved cost_of_def)
  have rr: "routes ?moved = ?rs" by (simp add: update_route_cost_def)
  have nb: "route_costs ?moved ! bs = cost_of inp ?rs bs"
    and nt: "route_costs ?moved ! bt = cost_of inp ?rs bt"
    unfolding rc using ne bs bt lens by simp_all
  show "int (route_costs ?moved ! bs + route_costs ?moved ! bt) + gain mv
         = int (route_costs sl ! bs + route_costs sl ! bt)"
    unfolding nb nt g using old [OF bs] old [OF bt] by simp
  have "route_costs ?moved ! v = cost_of inp ?rs v" if v: "v < V" for v
  proof (cases "v = bs \<or> v = bt")
    case True
    then show ?thesis using nb nt by auto
  next
    case False
    then have "route_costs ?moved ! v = route_costs sl ! v" unfolding rc by simp
    also have "\<dots> = cost_of inp (routes sl) v" by (rule old [OF v])
    also have "\<dots> = cost_of inp ?rs v" using frame [of v] False by (simp add: cost_of_def)
    finally show ?thesis .
  qed
  then show "costs_coherent inp V ?moved"
    unfolding costs_coherent_def rr using lrs lens by (simp add: rc)
  show "\<And>v. v \<noteq> bs \<Longrightarrow> v \<noteq> bt \<Longrightarrow> routes ?moved ! v = routes sl ! v"
    unfolding rr by (rule frame)
qed

lemma coherent_update:
  assumes "costs_coherent inp V sl"
  shows "costs_coherent inp V (sl\<lparr>routes := (routes sl)[v := r],
           route_costs := (route_costs sl)[v := route_cost_for_vehicle inp v r]\<rparr>)"
proof -
  have lens: "length (routes sl) = V" "length (route_costs sl) = V"
    and old: "\<And>u. u < V \<Longrightarrow> route_costs sl ! u = route_cost_for_vehicle inp u (routes sl ! u)"
    using assms by (simp_all add: costs_coherent_def cost_of_def)
  have "(route_costs sl)[v := route_cost_for_vehicle inp v r] ! u
      = route_cost_for_vehicle inp u ((routes sl)[v := r] ! u)" if u: "u < V" for u
  proof (cases "u = v")
    case True
    then show ?thesis using u lens by simp
  next
    case False
    then show ?thesis using old [OF u] by simp
  qed
  then show ?thesis using lens by (simp add: costs_coherent_def cost_of_def)
qed

lemma straighten_coherent:
  assumes "costs_coherent inp V sl"
  shows "costs_coherent inp V (straighten_route inp v sl)"
    and "\<And>u. u \<noteq> v \<Longrightarrow> routes (straighten_route inp v sl) ! u = routes sl ! u"
proof -
  show "\<And>u. u \<noteq> v \<Longrightarrow> routes (straighten_route inp v sl) ! u = routes sl ! u"
    by (simp add: straighten_route_def Let_def)
  have "costs_coherent inp V (sl\<lparr>routes := (routes sl)[v := r],
           route_costs := (route_costs sl)[v := route_cost_for_vehicle inp v r]\<rparr>)" for r
    using assms by (rule coherent_update)
  then show "costs_coherent inp V (straighten_route inp v sl)"
    using assms by (simp add: straighten_route_def Let_def)
qed

lemma update_amounts_coherent:
  "costs_coherent inp V (update_amounts inp' v sl) = costs_coherent inp V sl"
  by (simp add: costs_coherent_def)

lemma set_gains_coherent:
  "costs_coherent inp V (set_node_gains inp' v sl) = costs_coherent inp V sl"
  "costs_coherent inp V (set_edge_gains inp' v sl) = costs_coherent inp V sl"
  by (simp_all add: costs_coherent_def)

lemma add_job_coherent:
  assumes "costs_coherent inp V sl"
  shows "costs_coherent inp V (add_job inp best sl)"
proof -
  let ?v = "best_route best"
  let ?r = "insert_at (best_rank best) (best_job best) (routes sl ! ?v)"
  let ?sl' = "sl\<lparr>routes := (routes sl)[?v := ?r],
           route_costs := (route_costs sl)[?v := route_cost_for_vehicle inp ?v ?r]\<rparr>"
  have rs: "routes (add_job inp best sl) = routes ?sl'" by (simp add: routes_add_job)
  have rc: "route_costs (add_job inp best sl) = route_costs ?sl'"
  proof (cases "?v < length (routes sl)")
    case True
    then show ?thesis by (simp add: add_job_def Let_def update_route_cost_def)
  next
    case False
    then have "?v \<ge> length (route_costs sl)" using assms by (simp add: costs_coherent_def)
    then show ?thesis
      by (simp add: add_job_def Let_def update_route_cost_def list_update_beyond)
  qed
  have "costs_coherent inp V ?sl'" using assms by (rule coherent_update)
  then show ?thesis unfolding costs_coherent_def rs rc .
qed

lemma try_job_additions_coherent:
  assumes "costs_coherent inp V sl"
  shows "costs_coherent inp V (try_job_additions inp rts c sl)"
  using try_job_additions_preserves [of "costs_coherent inp V" inp rts c sl]
    add_job_coherent assms by blast

lemma refresh_after_move_coherent:
  assumes coh: "costs_coherent inp V sl" and cand: "set (addition_candidates mv) \<subseteq> {bs, bt}"
  shows "costs_coherent inp V (refresh_after_move inp bs bt mv sl)"
    and "\<And>v. v \<noteq> bs \<Longrightarrow> v \<noteq> bt \<Longrightarrow> routes (refresh_after_move inp bs bt mv sl) ! v = routes sl ! v"
proof -
  let ?s1 = "straighten_route inp bt (straighten_route inp bs sl)"
  let ?s2 = "update_amounts inp bt (update_amounts inp bs ?s1)"
  let ?s3 = "try_job_additions inp (addition_candidates mv) 0 ?s2"
  have c1: "costs_coherent inp V ?s1"
    by (intro straighten_coherent(1) coh)
  then have c2: "costs_coherent inp V ?s2" by (simp add: update_amounts_coherent)
  then have c3: "costs_coherent inp V ?s3" by (rule try_job_additions_coherent)
  then show "costs_coherent inp V (refresh_after_move inp bs bt mv sl)"
    by (simp add: refresh_after_move_def Let_def set_gains_coherent)
  fix v assume v: "v \<noteq> bs" "v \<noteq> bt"
  then have "v \<notin> set (addition_candidates mv)" using cand by auto
  then have "routes ?s3 ! v = routes ?s2 ! v" by (rule try_job_additions_outside)
  also have "\<dots> = routes sl ! v"
    using v straighten_coherent(2) [of inp V sl v bs] coh by (simp add: straighten_route_def Let_def)
  finally show "routes (refresh_after_move inp bs bt mv sl) ! v = routes sl ! v"
    by (simp add: refresh_after_move_def Let_def)
qed

subsection \<open>The reset clears every pair of a changed route\<close>

lemma reset_gains_step_nth:
  assumes "square V g" and "s < V" and "t < V"
  shows "reset_gains_step bs bt g v ! s ! t
           = (if v \<noteq> bs \<and> v \<noteq> bt \<and>
                 (s = v \<and> (t = bs \<or> t = bt) \<or> t = v \<and> (s = bs \<or> s = bt))
              then 0 else g ! s ! t)"
proof (cases "v = bs \<or> v = bt")
  case True
  then have "reset_gains_step bs bt g v = g" by (simp add: reset_gains_step_def)
  then show ?thesis using True by auto
next
  case False
  let ?g1 = "set2 g v bs 0"
  let ?g2 = "set2 ?g1 bs v 0"
  let ?g3 = "set2 ?g2 v bt 0"
  have sq1: "square V ?g1" by (rule square_set2 [OF assms(1)])
  have sq2: "square V ?g2" by (rule square_set2 [OF sq1])
  have sq3: "square V ?g3" by (rule square_set2 [OF sq2])
  have 1: "?g1 ! s ! t = (if s = v \<and> t = bs then 0 else g ! s ! t)"
    by (rule nth_set2 [OF assms])
  have 2: "?g2 ! s ! t = (if s = bs \<and> t = v then 0 else ?g1 ! s ! t)"
    by (rule nth_set2 [OF sq1 assms(2,3)])
  have 3: "?g3 ! s ! t = (if s = v \<and> t = bt then 0 else ?g2 ! s ! t)"
    by (rule nth_set2 [OF sq2 assms(2,3)])
  have 4: "set2 ?g3 bt v 0 ! s ! t = (if s = bt \<and> t = v then 0 else ?g3 ! s ! t)"
    by (rule nth_set2 [OF sq3 assms(2,3)])
  have e: "reset_gains_step bs bt g v = set2 ?g3 bt v 0"
    using False by (simp add: reset_gains_step_def)
  show ?thesis unfolding e 4 3 2 1 using False by auto
qed

lemma reset_fold_zero:
  assumes "square V g0"
  shows "square V (foldl (reset_gains_step bs bt) g0 vs) \<and>
         (\<forall>s < V. \<forall>t < V.
            g0 ! s ! t = 0 \<or> s \<in> set vs \<and> s \<noteq> bs \<and> s \<noteq> bt \<and> (t = bs \<or> t = bt)
            \<longrightarrow> foldl (reset_gains_step bs bt) g0 vs ! s ! t = 0)"
proof (induction vs rule: rev_induct)
  case Nil
  then show ?case using assms by simp
next
  case (snoc v vs)
  let ?g = "foldl (reset_gains_step bs bt) g0 vs"
  have sq: "square V ?g" using snoc by simp
  have old: "?g ! s ! t = 0"
    if "s < V" "t < V" "g0 ! s ! t = 0 \<or> s \<in> set vs \<and> s \<noteq> bs \<and> s \<noteq> bt \<and> (t = bs \<or> t = bt)"
    for s t
    using snoc that by blast
  have sq': "square V (reset_gains_step bs bt ?g v)"
    using sq by (simp add: reset_gains_step_def square_set2)
  have new: "reset_gains_step bs bt ?g v ! s ! t = 0"
    if s: "s < V" and t: "t < V"
      and c: "g0 ! s ! t = 0 \<or> s \<in> set (vs @ [v]) \<and> s \<noteq> bs \<and> s \<noteq> bt \<and> (t = bs \<or> t = bt)"
    for s t
  proof (cases "g0 ! s ! t = 0 \<or> s \<in> set vs \<and> s \<noteq> bs \<and> s \<noteq> bt \<and> (t = bs \<or> t = bt)")
    case True
    then have "?g ! s ! t = 0" by (rule old [OF s t])
    then show ?thesis unfolding reset_gains_step_nth [OF sq s t] by simp
  next
    case False
    then have "s = v \<and> v \<noteq> bs \<and> v \<noteq> bt \<and> (t = bs \<or> t = bt)" using c by auto
    then show ?thesis unfolding reset_gains_step_nth [OF sq s t] by simp
  qed
  have "foldl (reset_gains_step bs bt) g0 (vs @ [v]) = reset_gains_step bs bt ?g v" by simp
  then show ?case using sq' new by presburger
qed

lemma reset_pairs_zero:
  assumes sq: "square V (best_gains st)" and bs: "bs < V" and bt: "bt < V"
    and s: "s < V" and t: "t < V" and touch: "s = bs \<or> s = bt \<or> t = bs \<or> t = bt"
  shows "best_gains (reset_pairs V bs bt st) ! s ! t = 0"
proof -
  let ?g0 = "(best_gains st)[bs := replicate V 0, bt := replicate V 0]"
  have len: "length (best_gains st) = V" using sq by (simp add: square_def)
  have "length (?g0 ! n) = V" if "n < V" for n
    using sq that by (cases "n = bt"; cases "n = bs") (simp_all add: square_def list_all_length)
  then have sq0: "square V ?g0" using len by (simp add: square_def list_all_length)
  have "?g0 ! s = replicate V 0" if "s = bs \<or> s = bt"
    using that bs bt len by (cases "s = bt") simp_all
  then have rows: "?g0 ! s ! t = 0" if "s = bs \<or> s = bt"
    using that t by simp
  have "?g0 ! s ! t = 0 \<or> s \<in> set [0..<V] \<and> s \<noteq> bs \<and> s \<noteq> bt \<and> (t = bs \<or> t = bt)"
    using rows touch s by auto
  then have "foldl (reset_gains_step bs bt) ?g0 [0..<V] ! s ! t = 0"
    using reset_fold_zero [OF sq0, of bs bt "[0..<V]"] s t by blast
  then show ?thesis by (simp add: reset_pairs_def)
qed

lemma initial_search_accurate:
  assumes "costs_coherent inp V sl"
  shows "stored_moves_accurate inp V (initial_search V sl)"
  using assms by (simp add: stored_moves_accurate_def initial_search_def square_replicate)

subsection \<open>Rounds keep the stored moves accurate\<close>

lemma apply_best_accurate:
  assumes inv: "stored_moves_accurate inp V st"
    and ne: "bs \<noteq> bt" and bs: "bs < V" and bt: "bt < V"
    and g: "best_gains st ! bs ! bt = g" and pos: "g > 0"
  shows "\<exists>mv. best_ops st ! bs ! bt = Some mv \<and>
           int (route_costs (update_route_cost inp bt (update_route_cost inp bs
                  ((sol st)\<lparr>routes := apply_to mv (routes (sol st))\<rparr>))) ! bs
              + route_costs (update_route_cost inp bt (update_route_cost inp bs
                  ((sol st)\<lparr>routes := apply_to mv (routes (sol st))\<rparr>))) ! bt) + g
             = int (route_costs (sol st) ! bs + route_costs (sol st) ! bt) \<and>
           (\<exists>st'. apply_best inp V g bs bt st = Inr st' \<and> stored_moves_accurate inp V st')"
proof -
  have sqg: "square V (best_gains st)" and sqo: "square V (best_ops st)"
    and coh: "costs_coherent inp V (sol st)"
    and entries: "\<And>s t. s < V \<Longrightarrow> t < V \<Longrightarrow> s \<noteq> t \<Longrightarrow> best_gains st ! s ! t > 0 \<Longrightarrow>
        \<exists>mv. best_ops st ! s ! t = Some mv \<and> gain mv = best_gains st ! s ! t \<and>
           (\<forall>rs. length rs = V \<and> rs ! s = routes (sol st) ! s \<and> rs ! t = routes (sol st) ! t
              \<longrightarrow> accurate_move inp rs s t mv)"
    using inv by (simp_all add: stored_moves_accurate_def)
  have len: "length (routes (sol st)) = V" using coh by (simp add: costs_coherent_def)
  obtain mv where mv: "best_ops st ! bs ! bt = Some mv" and gmv: "gain mv = g"
    and acc: "accurate_move inp (routes (sol st)) bs bt mv"
    using entries [OF bs bt ne] g pos len by auto
  let ?moved = "update_route_cost inp bt (update_route_cost inp bs
                  ((sol st)\<lparr>routes := apply_to mv (routes (sol st))\<rparr>))"
  let ?sl' = "refresh_after_move inp bs bt mv ?moved"
  let ?st' = "reset_pairs V bs bt (st\<lparr>sol := ?sl'\<rparr>)"
  have eq: "int (route_costs ?moved ! bs + route_costs ?moved ! bt) + g
         = int (route_costs (sol st) ! bs + route_costs (sol st) ! bt)"
    using moved_accurate(1) [OF coh ne bs bt acc] gmv by simp
  have cohm: "costs_coherent inp V ?moved" by (rule moved_accurate(2) [OF coh ne bs bt acc])
  have cand: "set (addition_candidates mv) \<subseteq> {bs, bt}" using acc by (simp add: accurate_move_def)
  have coh': "costs_coherent inp V ?sl'" by (rule refresh_after_move_coherent(1) [OF cohm cand])
  have frame: "routes ?sl' ! v = routes (sol st) ! v" if "v \<noteq> bs" "v \<noteq> bt" for v
    using refresh_after_move_coherent(2) [OF cohm cand that]
      moved_accurate(3) [OF coh ne bs bt acc that] by simp
  have res: "apply_best inp V g bs bt st = Inr ?st'" by (rule apply_best_Inr [OF mv eq])
  have sqg': "square V (best_gains (st\<lparr>sol := ?sl'\<rparr>))" using sqg by simp
  have z: "zeroed V (best_gains st) (best_gains ?st')"
    using zeroed_reset [OF sqg', of bs bt] by simp
  have entry: "\<exists>mv'. best_ops ?st' ! s ! t = Some mv' \<and> gain mv' = best_gains ?st' ! s ! t \<and>
           (\<forall>rs. length rs = V \<and> rs ! s = routes (sol ?st') ! s \<and> rs ! t = routes (sol ?st') ! t
              \<longrightarrow> accurate_move inp rs s t mv')"
    if s: "s < V" and t: "t < V" and st: "s \<noteq> t" and p: "best_gains ?st' ! s ! t > 0" for s t
  proof -
    have untouched: "s \<noteq> bs" "s \<noteq> bt" "t \<noteq> bs" "t \<noteq> bt"
      using reset_pairs_zero [OF sqg' bs bt s t] p by auto
    have same: "best_gains ?st' ! s ! t = best_gains st ! s ! t"
      using z s t p unfolding zeroed_def by fastforce
    obtain mv' where mv': "best_ops st ! s ! t = Some mv'" "gain mv' = best_gains st ! s ! t"
      and acc': "\<And>rs. length rs = V \<Longrightarrow> rs ! s = routes (sol st) ! s \<Longrightarrow>
                   rs ! t = routes (sol st) ! t \<Longrightarrow> accurate_move inp rs s t mv'"
      using entries [OF s t st] p same by auto
    have "accurate_move inp rs s t mv'"
      if "length rs = V" "rs ! s = routes ?sl' ! s" "rs ! t = routes ?sl' ! t" for rs
      using acc' [of rs] that frame [OF untouched(1,2)] frame [OF untouched(3,4)] by simp
    then show ?thesis using mv' same by simp
  qed
  have "stored_moves_accurate inp V ?st'"
    unfolding stored_moves_accurate_def
    using z sqo coh' entry by (simp add: zeroed_def)
  then show ?thesis using mv eq res by blast
qed

lemma run_round_accurate:
  assumes contract: "operator_contract inp mk" and inv: "stored_moves_accurate inp V st"
  shows "run_round inp mk V st \<noteq> Inl GainMismatch"
    and "run_round inp mk V st = Inr (g, st') \<Longrightarrow> stored_moves_accurate inp V st'"
proof -
  let ?st1 = "evaluate_all inp mk st"
  have inv1: "stored_moves_accurate inp V ?st1"
    by (rule evaluate_all_accurate [OF contract inv])
  obtain g1 bs bt where sel: "select_best V (best_gains ?st1) = (g1, bs, bt)"
    by (cases "select_best V (best_gains ?st1)") auto
  have ok: "\<exists>st2. apply_best inp V g1 bs bt ?st1 = Inr st2 \<and> stored_moves_accurate inp V st2"
    if "g1 > 0"
  proof -
    have p: "bs \<noteq> bt" "bs < V" "bt < V" "best_gains ?st1 ! bs ! bt = g1"
      using select_best_props(2) [OF sel that] by simp_all
    from apply_best_accurate [OF inv1 p that] show ?thesis by blast
  qed
  show "run_round inp mk V st \<noteq> Inl GainMismatch"
    using sel ok by (cases "g1 > 0") (auto simp: run_round_def Let_def)
  show "stored_moves_accurate inp V st'" if "run_round inp mk V st = Inr (g, st')"
    using that sel ok inv1 by (cases "g1 > 0") (auto simp: run_round_def Let_def)
qed

lemma reachable_accurate:
  assumes "operator_contract inp mk" and "costs_coherent inp V sl0"
  shows "reachable inp mk V sl0 st \<Longrightarrow> stored_moves_accurate inp V st"
  by (induction rule: reachable.induct)
    (auto intro: initial_search_accurate [OF assms(2)] run_round_accurate(2) [OF assms(1)])

lemma run_round_has_op:
  assumes "positive_gains_have_ops V st"
  shows "run_round inp mk V st \<noteq> Inl NullOperator"
proof -
  let ?st1 = "evaluate_all inp mk st"
  have inv: "positive_gains_have_ops V ?st1" using assms by (rule evaluate_all_invariant)
  obtain g bs bt where sel: "select_best V (best_gains ?st1) = (g, bs, bt)"
    by (cases "select_best V (best_gains ?st1)") auto
  have "g > 0 \<longrightarrow> best_ops ?st1 ! bs ! bt \<noteq> None"
    using selection_has_op [OF inv sel] by blast
  then show ?thesis
    using sel
    by (auto simp: run_round_def apply_best_def Let_def split: option.splits sum.splits if_splits)
qed

lemma run_loop_passes_assertions:
  assumes contract: "operator_contract inp mk"
  shows "stored_moves_accurate inp V st \<Longrightarrow> positive_gains_have_ops V st
           \<Longrightarrow> \<exists>st'. run_loop inp mk V st = Some (Inr st')"
proof (induction st rule: wf_induct_rule
    [OF wf_inv_image [OF wf_lex_prod [OF wf_less_than wf_less_than], of search_measure]])
  case (1 st)
  have len: "length (route_costs (sol st)) = V"
    using "1.prems"(1) by (simp add: stored_moves_accurate_def costs_coherent_def)
  show ?case
  proof (cases "run_round inp mk V st")
    case (Inl e)
    have "e \<noteq> GainMismatch" using run_round_accurate(1) [OF contract "1.prems"(1)] Inl by auto
    moreover have "e \<noteq> NullOperator" using run_round_has_op [OF "1.prems"(2), of inp mk] Inl by auto
    ultimately show ?thesis by (cases e) simp_all
  next
    case (Inr p)
    obtain g st' where p: "p = (g, st')" by (cases p)
    show ?thesis
    proof (cases "g > 0")
      case True
      have "(st', st) \<in> inv_image (less_than <*lex*> less_than) search_measure"
        using run_round_decreases(1) [OF Inr [unfolded p] True len] by simp
      moreover have "stored_moves_accurate inp V st'"
        by (rule run_round_accurate(2) [OF contract "1.prems"(1) Inr [unfolded p]])
      moreover have "positive_gains_have_ops V st'"
        by (rule run_round_invariant [OF "1.prems"(2) Inr [unfolded p]])
      ultimately obtain result where "run_loop inp mk V st' = Some (Inr result)"
        using "1.IH" by blast
      then show ?thesis using Inr p True by (subst run_loop.simps) simp
    next
      case False
      then show ?thesis using Inr p by (subst run_loop.simps) simp
    qed
  qed
qed

lemma selected_move_accounts:
  assumes contract: "operator_contract inp mk" and inv: "stored_moves_accurate inp V st"
    and sel: "select_best V (best_gains (evaluate_all inp mk st)) = (g, bs, bt)" and pos: "g > 0"
  shows "\<exists>best_op. best_ops (evaluate_all inp mk st) ! bs ! bt = Some best_op \<and>
           int (route_costs (update_route_cost inp bt (update_route_cost inp bs
                  ((sol st)\<lparr>routes := apply_to best_op (routes (sol st))\<rparr>))) ! bs
              + route_costs (update_route_cost inp bt (update_route_cost inp bs
                  ((sol st)\<lparr>routes := apply_to best_op (routes (sol st))\<rparr>))) ! bt) + g
             = int (route_costs (sol st) ! bs + route_costs (sol st) ! bt)"
proof -
  let ?st1 = "evaluate_all inp mk st"
  have inv1: "stored_moves_accurate inp V ?st1"
    by (rule evaluate_all_accurate [OF contract inv])
  have p: "bs \<noteq> bt" "bs < V" "bt < V" "best_gains ?st1 ! bs ! bt = g"
    using select_best_props(2) [OF sel pos] by simp_all
  from apply_best_accurate [OF inv1 p pos] show ?thesis by auto
qed

lemma demo_contract: "operator_contract demo_input demo_mk"
  unfolding operator_contract_def
proof (intro allI impI)
  fix kind sl s s_rank t t_rank rs
  assume h: "is_valid (demo_mk kind sl s s_rank t t_rank) \<and> s \<noteq> t \<and>
        s < length (routes sl) \<and> t < length (routes sl) \<and> length rs = length (routes sl) \<and>
        rs ! s = routes sl ! s \<and> rs ! t = routes sl ! t"
  then have k: "kind = Relocate" by (cases kind) (simp_all add: demo_mk_def)
  have a: "relocate_routes s s_rank t t_rank rs ! s = relocate_routes s s_rank t t_rank (routes sl) ! s"
    and b: "relocate_routes s s_rank t t_rank rs ! t = relocate_routes s s_rank t t_rank (routes sl) ! t"
    and c: "\<And>v. v \<noteq> s \<and> v \<noteq> t \<longrightarrow> relocate_routes s s_rank t t_rank rs ! v = rs ! v"
    using h by (simp_all add: relocate_routes_def)
  show "accurate_move demo_input rs s t (demo_mk kind sl s s_rank t t_rank)"
    unfolding accurate_move_def k
    using h a b c by (simp add: demo_mk_def cost_of_def demo_input_def relocate_routes_def)
qed

lemma demo_costs_coherent: "costs_coherent demo_input 2 (demo_solution [[1, 5], [4]] [2])"
  by (auto simp: costs_coherent_def cost_of_def demo_input_def demo_solution_def
      less_Suc_eq numeral_2_eq_2)

section \<open>Amount caches: the claims\<close>






section \<open>Straightening: the claim\<close>

text \<open>
  C7.  For a touched route with at least one job, \<^verbatim>\<open>straighten_route\<close> takes the forward
  or the reverse rebuild, the one that serves more jobs and at equal size the cheaper
  one.  It replaces the route, and stores the cost of the rebuild, only when the chosen
  rebuild serves exactly as many jobs as the current route and costs strictly less than
  the cached cost; in every other case the solution is left as it is.  The number of
  jobs of the route never changes, and when the heuristic returns jobs of the route it
  was given, no job is dropped.
\<close>

theorem straighten_route_keeps_jobs:
  assumes "routes sl ! v \<noteq> []" and "v < length (routes sl)" and "v < length (route_costs sl)"
  shows "let route = routes sl ! v;
             forward = single_route_heuristic inp v route True;
             reverse = single_route_heuristic inp v route False;
             chosen = chosen_variant inp v route;
             sl' = straighten_route inp v sl
         in (chosen = forward \<or> chosen = reverse) \<and>
            length chosen = max (length forward) (length reverse) \<and>
            (length forward = length reverse \<longrightarrow>
               route_cost_for_vehicle inp v chosen
                 = min (route_cost_for_vehicle inp v forward) (route_cost_for_vehicle inp v reverse)) \<and>
            (if length chosen = length route \<and> route_cost_for_vehicle inp v chosen < route_costs sl ! v
             then routes sl' ! v = chosen \<and>
                  route_costs sl' ! v = route_cost_for_vehicle inp v chosen
             else sl' = sl) \<and>
            length (routes sl' ! v) = length route \<and>
            ((\<forall>flag. mset (single_route_heuristic inp v route flag) \<subseteq># mset route)
               \<longrightarrow> mset (routes sl' ! v) = mset route)"
proof -
  let ?route = "routes sl ! v"
  let ?chosen = "chosen_variant inp v ?route"
  have repl: "length ?chosen = length ?route \<and> route_cost_for_vehicle inp v ?chosen < route_costs sl ! v
      \<Longrightarrow> routes (straighten_route inp v sl) ! v = ?chosen \<and>
          route_costs (straighten_route inp v sl) ! v = route_cost_for_vehicle inp v ?chosen"
    using straighten_route_replaced [OF assms, of inp] by simp
  have same: "\<not> (length ?chosen = length ?route \<and>
        route_cost_for_vehicle inp v ?chosen < route_costs sl ! v)
      \<Longrightarrow> straighten_route inp v sl = sl"
    using straighten_route_unchanged [of sl v inp] by blast
  show ?thesis
    unfolding Let_def
    using chosen_variant_cases [of inp v ?route] length_chosen_variant [of inp v ?route]
      cost_chosen_variant [of inp v ?route] repl same
      length_straighten_route [of inp v sl v] mset_straighten_route [of inp v sl]
    by (simp split: if_splits)
qed

text \<open>
  On the small instance the route \<open>[3, 1]\<close>, cached at cost \<open>5\<close>, is replaced by its
  reverse \<open>[1, 3]\<close> at cost \<open>3\<close>.
\<close>

theorem straighten_route_keeps_jobs_witness:
  "routes (demo_solution [[3, 1]] []) ! 0 \<noteq> [] \<and>
   0 < length (routes (demo_solution [[3, 1]] [])) \<and>
   0 < length (route_costs (demo_solution [[3, 1]] [])) \<and>
   chosen_variant demo_input 0 [3, 1] = [1, 3] \<and>
   routes (straighten_route demo_input 0 (demo_solution [[3, 1]] [])) ! 0 = [1, 3] \<and>
   route_costs (straighten_route demo_input 0 (demo_solution [[3, 1]] [])) ! 0 = 3 \<and>
   mset (routes (straighten_route demo_input 0 (demo_solution [[3, 1]] [])) ! 0) = mset [3, 1]"
proof -
  have h1: "routes (demo_solution [[3, 1]] []) ! 0 \<noteq> []"
    by (simp add: demo_solution_def)
  have h2: "0 < length (routes (demo_solution [[3, 1]] []))"
    by (simp add: demo_solution_def)
  have h3: "0 < length (route_costs (demo_solution [[3, 1]] []))"
    by (simp add: demo_solution_def)
  have r: "routes (demo_solution [[3, 1]] []) ! 0 = [3, 1]"
    by (simp add: demo_solution_def)
  have c: "chosen_variant demo_input 0 [3, 1] = [1, 3]"
    by (simp add: chosen_variant_def demo_input_def)
  have k: "route_costs (demo_solution [[3, 1]] []) ! 0 = 5"
    by (simp add: demo_solution_def)
  have rc: "route_cost_for_vehicle demo_input 0 [1, 3] = 3"
    by (simp add: demo_input_def)
  have sub: "\<forall>flag. mset (single_route_heuristic demo_input 0 [3, 1] flag) \<subseteq># mset [3, 1]"
    by (simp add: demo_input_def)
  show ?thesis
    using straighten_route_keeps_jobs [OF h1 h2 h3, of demo_input] h1 h2 h3 sub
    unfolding Let_def r c k rc by simp
qed

section \<open>The 2-opt* scans: the claims\<close>


section \<open>The round loop: the claims\<close>


text \<open>
  C10.  At the selection step of every round a positive entry of \<^verbatim>\<open>best_gains\<close> has a
  stored move in \<^verbatim>\<open>best_ops\<close>; so the selected pair has one, and the assertion before
  \<^verbatim>\<open>apply\<close> never fails.
\<close>

theorem positive_gain_has_stored_move:
  assumes "reachable inp mk V sl0 st"
  shows "let st1 = evaluate_all inp mk st
         in (\<forall>s < V. \<forall>t < V. best_gains st1 ! s ! t > 0 \<longrightarrow> best_ops st1 ! s ! t \<noteq> None) \<and>
            (case select_best V (best_gains st1) of (best_gain, best_source, best_target) \<Rightarrow>
               best_gain > 0 \<longrightarrow> best_ops st1 ! best_source ! best_target \<noteq> None) \<and>
            run_round inp mk V st \<noteq> Inl NullOperator"
proof -
  let ?st1 = "evaluate_all inp mk st"
  have inv: "positive_gains_have_ops V ?st1"
    using reachable_invariant [OF assms] by (rule evaluate_all_invariant)
  obtain g bs bt where sel: "select_best V (best_gains ?st1) = (g, bs, bt)"
    by (cases "select_best V (best_gains ?st1)") auto
  have op: "g > 0 \<longrightarrow> best_ops ?st1 ! bs ! bt \<noteq> None"
    using selection_has_op [OF inv sel] by blast
  have "run_round inp mk V st \<noteq> Inl NullOperator"
    using sel op
    by (auto simp: run_round_def apply_best_def Let_def split: option.splits sum.splits if_splits)
  then show ?thesis
    using inv sel op unfolding Let_def positive_gains_have_ops_def by simp
qed

theorem positive_gain_has_stored_move_witness:
  "reachable demo_input demo_mk 2 (demo_solution [[1, 5], [4]] [])
     (initial_search 2 (demo_solution [[1, 5], [4]] [])) \<and>
   run_round demo_input demo_mk 2 (initial_search 2 (demo_solution [[1, 5], [4]] []))
     \<noteq> Inl NullOperator"
proof -
  have r: "reachable demo_input demo_mk 2 (demo_solution [[1, 5], [4]] [])
     (initial_search 2 (demo_solution [[1, 5], [4]] []))"
    by (rule reachable.start)
  show ?thesis
    using r positive_gain_has_stored_move [OF r] unfolding Let_def by blast
qed

section \<open>Job reinsertion: the claims\<close>

text \<open>
  C4, as stated: the list passed to \<^verbatim>\<open>try_job_additions\<close> holds job indices and is only
  a hint.  With job \<open>5\<close> unassigned and two empty routes that could both take it, the
  empty list leaves the solution as it is, and the list \<open>[1]\<close>, in which \<open>1\<close> is no
  unassigned job, puts job \<open>5\<close> into route \<open>1\<close>: the entries are the routes that may
  receive a job.
\<close>

theorem candidate_list_is_a_hint_counterexample:
  "try_job_additions demo_input [] 0 (demo_solution [[], []] [5]) = demo_solution [[], []] [5] \<and>
   routes (try_job_additions demo_input [1] 0 (demo_solution [[], []] [5])) = [[], [5]] \<and>
   unassigned (try_job_additions demo_input [1] 0 (demo_solution [[], []] [5])) = []"
proof -
  let ?sl = "demo_solution [[], []] [5]"
  have added: "best_cost (find_best_addition demo_input ?sl [1] 0) < double_max"
    unfolding demo_first_pass using five_is_a_double by simp
  have last: "unassigned ?sl = [best_job (find_best_addition demo_input ?sl [1] 0)]"
    unfolding demo_first_pass by (simp add: demo_solution_def)
  have "try_job_additions demo_input [1] 0 ?sl
      = add_job demo_input \<lparr>best_cost = 5, best_job = 5, best_route = 1, best_rank = 0\<rparr> ?sl"
    using try_job_additions_last_job [OF added last] unfolding demo_first_pass .
  moreover have "routes (add_job demo_input
      \<lparr>best_cost = 5, best_job = 5, best_route = 1, best_rank = 0\<rparr> ?sl) = [[], [5]]"
    by (simp add: routes_add_job) (simp add: demo_solution_def insert_at_def)
  moreover have "unassigned (add_job demo_input
      \<lparr>best_cost = 5, best_job = 5, best_route = 1, best_rank = 0\<rparr> ?sl) = []"
    by (simp add: demo_solution_def)
  ultimately show ?thesis by (simp add: try_job_additions_empty_list)
qed

text \<open>
  C4, amended: for every accepted move, the list \<^verbatim>\<open>run\<close> passes to \<^verbatim>\<open>try_job_additions\<close>
  is the move's \<^verbatim>\<open>addition_candidates()\<close>, taken as the routes that may receive a job:
  a pass looks at all unassigned jobs, the job it inserts is one of them and the route it
  inserts into is one of the list, so the routes outside the list leave the reinsertion
  as they entered it.
\<close>

theorem addition_candidates_are_the_routes_to_fill:
  assumes "best_ops st ! best_source ! best_target = Some best_op"
    and "apply_best inp V best_gain best_source best_target st = Inr st'"
  shows "let moved = update_route_cost inp best_target (update_route_cost inp best_source
                       ((sol st)\<lparr>routes := apply_to best_op (routes (sol st))\<rparr>));
             straightened = straighten_route inp best_target
                              (straighten_route inp best_source moved);
             refreshed = update_amounts inp best_target
                           (update_amounts inp best_source straightened);
             filled = try_job_additions inp (addition_candidates best_op) 0 refreshed;
             first_pass = find_best_addition inp refreshed (addition_candidates best_op) 0
         in routes (sol st') = routes filled \<and> unassigned (sol st') = unassigned filled \<and>
            (\<forall>v. v \<notin> set (addition_candidates best_op) \<longrightarrow> routes filled ! v = routes refreshed ! v) \<and>
            set (unassigned filled) \<subseteq> set (unassigned refreshed) \<and>
            (best_cost first_pass < double_max \<longrightarrow>
               best_job first_pass \<in> set (unassigned refreshed) \<and>
               best_route first_pass \<in> set (addition_candidates best_op))"
proof -
  let ?refreshed = "update_amounts inp best_target (update_amounts inp best_source
      (straighten_route inp best_target (straighten_route inp best_source
        (update_route_cost inp best_target (update_route_cost inp best_source
          ((sol st)\<lparr>routes := apply_to best_op (routes (sol st))\<rparr>))))))"
  let ?rts = "addition_candidates best_op"
  let ?filled = "try_job_additions inp ?rts 0 ?refreshed"
  have s: "routes (sol st') = routes ?filled" "unassigned (sol st') = unassigned ?filled"
    unfolding apply_best_sol [OF assms] refresh_after_move_def Let_def by simp_all
  have o: "\<forall>v. v \<notin> set ?rts \<longrightarrow> routes ?filled ! v = routes ?refreshed ! v"
    using try_job_additions_outside [of _ ?rts inp 0 ?refreshed] by blast
  have u: "set (unassigned ?filled) \<subseteq> set (unassigned ?refreshed)"
    by (rule try_job_additions_unassigned)
  have f: "best_cost (find_best_addition inp ?refreshed ?rts 0) < double_max \<longrightarrow>
      best_job (find_best_addition inp ?refreshed ?rts 0) \<in> set (unassigned ?refreshed) \<and>
      best_route (find_best_addition inp ?refreshed ?rts 0) \<in> set ?rts"
    using find_best_addition_job [of inp ?refreshed ?rts 0]
      find_best_addition_route [of inp ?refreshed ?rts 0] by blast
  show ?thesis unfolding Let_def using s o u f by (intro conjI)
qed

text \<open>
  In the state with the stored move of job \<open>5\<close>, whose candidate list is \<open>[0]\<close>, the
  move is applied and route \<open>1\<close> leaves the reinsertion as \<open>[4, 5]\<close>.
\<close>

theorem addition_candidates_are_the_routes_to_fill_witness:
  "best_ops demo_search ! 0 ! 1 = Some demo_move \<and>
   apply_best demo_input 2 3 0 1 demo_search
     = Inr (reset_pairs 2 0 1 (demo_search\<lparr>sol := refresh_after_move demo_input 0 1 demo_move
              (update_route_cost demo_input 1 (update_route_cost demo_input 0
                 ((sol demo_search)\<lparr>routes := apply_to demo_move (routes (sol demo_search))\<rparr>)))\<rparr>)) \<and>
   addition_candidates demo_move = [0] \<and>
   routes (sol (reset_pairs 2 0 1 (demo_search\<lparr>sol := refresh_after_move demo_input 0 1 demo_move
              (update_route_cost demo_input 1 (update_route_cost demo_input 0
                 ((sol demo_search)\<lparr>routes := apply_to demo_move (routes (sol demo_search))\<rparr>)))\<rparr>))) ! 1
     = [4, 5]"
proof -
  let ?moved = "update_route_cost demo_input 1 (update_route_cost demo_input 0
                 ((sol demo_search)\<lparr>routes := apply_to demo_move (routes (sol demo_search))\<rparr>))"
  let ?st' = "reset_pairs 2 0 1 (demo_search\<lparr>sol := refresh_after_move demo_input 0 1 demo_move ?moved\<rparr>)"
  have h1: "best_ops demo_search ! 0 ! 1 = Some demo_move"
    by (simp add: demo_search_def)
  have rs: "routes ?moved = [[1], [4, 5]]"
    by (simp add: update_route_cost_def demo_search_def initial_search_def demo_move_def
        demo_mk_def demo_solution_def relocate_routes_def insert_at_def)
  have rc: "route_costs ?moved = [1, 5]"
    using rs
    by (simp add: update_route_cost_def demo_search_def initial_search_def demo_input_def
        demo_solution_def)
  have old: "route_costs (sol demo_search) = [5, 4]"
    by (simp add: demo_search_def initial_search_def demo_solution_def)
  have "int (route_costs ?moved ! 0 + route_costs ?moved ! 1) + 3
      = int (route_costs (sol demo_search) ! 0 + route_costs (sol demo_search) ! 1)"
    unfolding rc old by simp
  from apply_best_Inr [OF h1 this, of 2]
  have h2: "apply_best demo_input 2 3 0 1 demo_search = Inr ?st'" .
  have cand: "addition_candidates demo_move = [0]"
    by (simp add: demo_move_def demo_mk_def)
  have "routes (straighten_route demo_input 1 (straighten_route demo_input 0 ?moved)) ! 1 = [4, 5]"
    using rs rc by (simp add: straighten_route_def chosen_variant_def demo_input_def Let_def)
  then have "routes (update_amounts demo_input 1 (update_amounts demo_input 0
      (straighten_route demo_input 1 (straighten_route demo_input 0 ?moved)))) ! 1 = [4, 5]"
    by simp
  moreover have "routes (sol ?st') ! 1
      = routes (update_amounts demo_input 1 (update_amounts demo_input 0
          (straighten_route demo_input 1 (straighten_route demo_input 0 ?moved)))) ! 1"
    using addition_candidates_are_the_routes_to_fill [OF h1 h2] cand
    unfolding Let_def by simp
  ultimately show ?thesis using h1 h2 cand by simp
qed



section \<open>Termination: the claim\<close>



section \<open>The assertion after a move: the claim\<close>




end

